theory Spec2Isabelle
  imports Main "HOL-Library.Char_ord" "HOL-Library.List_Lexorder" "HOL-Library.Sublist"
    "HOL-Library.Multiset"
begin

section \<open>JavaScript values used by \<open>groupBy\<close> (src/rhyme\_finder.js)\<close>

text \<open>
  Group names are the primitive values a key derivation can return: \<open>undefined\<close>,
  \<open>null\<close>, booleans, integral numbers and strings. \<open>Num n\<close> stands for the Number
  whose value is the integer \<open>n\<close> (exact for safe integers, \<open>|n| < 2^53\<close>); strings are
  sequences of code units. Equality of this datatype is the \<open>SameValueZero\<close> comparison
  a \<open>Map\<close> uses on such values: the number 2 and the string "2" are different keys.
  Fractional numbers, \<open>NaN\<close>, symbols and objects as group names are left out.
\<close>

datatype key = Undefined | Null | Bool bool | Num int | Str string

text \<open>
  The elements of \<open>objects\<close>: \<open>undefined\<close>, \<open>null\<close>, or an object given by its own data
  properties (name and value; the first entry of a name is the property).
\<close>

datatype jsrecord = RUndefined | RNull | RObj "(string \<times> key) list"

datatype error = TypeError | Thrown string

text \<open>The \<open>property\<close> parameter: a property name, or a function of one object.\<close>

datatype keyrule = FieldName string | Callable "jsrecord \<Rightarrow> error + key"

subsection \<open>ToString\<close>

text \<open>
  The string of a group name, as a property key and as \<open>sort()\<close> compares it. An integral
  Number is written in decimal digits, most significant first, without leading zeros,
  with a minus sign when negative (so for every integral Number below \<open>10^21\<close> in absolute
  value).
\<close>

definition digit_char :: "nat \<Rightarrow> char" where
  "digit_char d = ''0123456789'' ! d"

fun string_of_nat :: "nat \<Rightarrow> string" where
  "string_of_nat n =
     (if n < 10 then [digit_char n]
      else string_of_nat (n div 10) @ [digit_char (n mod 10)])"

declare string_of_nat.simps [simp del]

definition string_of_int :: "int \<Rightarrow> string" where
  "string_of_int i = (if i < 0 then CHR ''-'' # string_of_nat (nat (- i)) else string_of_nat (nat i))"

fun ToString :: "key \<Rightarrow> string" where
  "ToString Undefined = ''undefined''"
| "ToString Null = ''null''"
| "ToString (Bool b) = (if b then ''true'' else ''false'')"
| "ToString (Num n) = string_of_int n"
| "ToString (Str s) = s"

subsection \<open>Property read \<open>obj[propName]\<close>\<close>

fun get_field :: "jsrecord \<Rightarrow> string \<Rightarrow> error + key" where
  "get_field RUndefined propName = Inl TypeError"
| "get_field RNull propName = Inl TypeError"
| "get_field (RObj fields) propName =
     (case map_of fields propName of None \<Rightarrow> Inr Undefined | Some v \<Rightarrow> Inr v)"

subsection \<open>The \<open>Map\<close> \<open>groupedObjects\<close>: entries in insertion order\<close>

type_synonym jsmap = "(key \<times> jsrecord list) list"

definition map_has :: "jsmap \<Rightarrow> key \<Rightarrow> bool" where
  "map_has m k = (map_of m k \<noteq> None)"

definition map_get :: "jsmap \<Rightarrow> key \<Rightarrow> jsrecord list option" where
  "map_get m k = map_of m k"

fun map_set :: "jsmap \<Rightarrow> key \<Rightarrow> jsrecord list \<Rightarrow> jsmap" where
  "map_set [] k v = [(k, v)]"
| "map_set ((k', v') # m) k v = (if k' = k then (k, v) # m else (k', v') # map_set m k v)"

definition map_keys :: "jsmap \<Rightarrow> key list" where
  "map_keys m = map fst m"

text \<open>
  One iteration of the first loop. \<open>groupedObjects.get(groupName).push(object)\<close> appends
  to the array stored under \<open>groupName\<close>; on a missing entry \<open>get\<close> returns \<open>undefined\<close>
  and the call of \<open>push\<close> is a TypeError.
\<close>

definition group_step :: "jsmap \<Rightarrow> key \<Rightarrow> jsrecord \<Rightarrow> error + jsmap" where
  "group_step groupedObjects groupName object =
     (let m = (if \<not> map_has groupedObjects groupName
               then map_set groupedObjects groupName [] else groupedObjects)
      in case map_get m groupName of
           None \<Rightarrow> Inl TypeError
         | Some arr \<Rightarrow> Inr (map_set m groupName (arr @ [object])))"

fun group_loop :: "(jsrecord \<Rightarrow> error + key) \<Rightarrow> jsrecord list \<Rightarrow> jsmap \<Rightarrow> error + jsmap" where
  "group_loop property [] groupedObjects = Inr groupedObjects"
| "group_loop property (object # objects) groupedObjects =
     (case property object of
        Inl e \<Rightarrow> Inl e
      | Inr groupName \<Rightarrow>
          (case group_step groupedObjects groupName object of
             Inl e \<Rightarrow> Inl e
           | Inr m \<Rightarrow> group_loop property objects m))"

subsection \<open>\<open>Array.prototype.sort()\<close> without a comparator\<close>

text \<open>
  The elements other than \<open>undefined\<close> are sorted by their strings, compared code unit
  by code unit (a proper prefix first); the sort is stable, so elements with equal strings
  keep their order; \<open>undefined\<close> elements go to the end.
\<close>

definition array_sort :: "key list \<Rightarrow> key list" where
  "array_sort ks =
     sort_key ToString (filter (\<lambda>k. k \<noteq> Undefined) ks) @ filter (\<lambda>k. k = Undefined) ks"

subsection \<open>The plain object \<open>result\<close>\<close>

text \<open>
  An ordinary object: its own properties in creation order (a value \<open>None\<close> is
  \<open>undefined\<close>) and the array its prototype was set to, if any (\<open>None\<close> is the initial
  \<open>Object.prototype\<close>).
\<close>

type_synonym jsprops = "(string \<times> jsrecord list option) list"

record jsobject =
  props :: jsprops
  proto :: "jsrecord list option"

definition empty_object :: jsobject where
  "empty_object = \<lparr>props = [], proto = None\<rparr>"

fun prop_put :: "jsprops \<Rightarrow> string \<Rightarrow> jsrecord list option \<Rightarrow> jsprops" where
  "prop_put [] name v = [(name, v)]"
| "prop_put ((name', v') # ps) name v =
     (if name' = name then (name, v) # ps else (name', v') # prop_put ps name v)"

text \<open>
  \<open>result[key] = value\<close>. The name \<open>__proto__\<close> is an accessor inherited from
  \<open>Object.prototype\<close>: its setter replaces the prototype when the value is an object and
  creates no own property. Every other name creates or overwrites an own data property.
\<close>

definition obj_set :: "jsobject \<Rightarrow> string \<Rightarrow> jsrecord list option \<Rightarrow> jsobject" where
  "obj_set obj name v =
     (if name = ''__proto__''
      then (case v of None \<Rightarrow> obj | Some arr \<Rightarrow> obj\<lparr>proto := Some arr\<rparr>)
      else obj\<lparr>props := prop_put (props obj) name v\<rparr>)"

text \<open>
  Own property enumeration (\<open>Object.entries\<close>, \<open>Object.keys\<close>, \<open>for ... in\<close>): first the
  array indices, the canonical decimal strings of the integers from 0 to \<open>2^32 - 2\<close>, in
  ascending numeric order, then the other names in creation order.
\<close>

definition digit_table :: "(char \<times> nat) list" where
  "digit_table =
     [(CHR ''0'', 0), (CHR ''1'', 1), (CHR ''2'', 2), (CHR ''3'', 3), (CHR ''4'', 4),
      (CHR ''5'', 5), (CHR ''6'', 6), (CHR ''7'', 7), (CHR ''8'', 8), (CHR ''9'', 9)]"

definition is_digit :: "char \<Rightarrow> bool" where
  "is_digit c = (map_of digit_table c \<noteq> None)"

definition digit_val :: "char \<Rightarrow> nat" where
  "digit_val c = (case map_of digit_table c of None \<Rightarrow> 0 | Some d \<Rightarrow> d)"

definition nat_of_string :: "string \<Rightarrow> nat" where
  "nat_of_string s = foldl (\<lambda>n c. 10 * n + digit_val c) 0 s"

definition array_index :: "string \<Rightarrow> nat option" where
  "array_index s =
     (if s \<noteq> [] \<and> list_all is_digit s \<and> string_of_nat (nat_of_string s) = s
         \<and> nat_of_string s < 4294967295
      then Some (nat_of_string s) else None)"

definition index_entries :: "jsprops \<Rightarrow> jsprops" where
  "index_entries ps =
     sort_key (\<lambda>p. case array_index (fst p) of None \<Rightarrow> 0 | Some n \<Rightarrow> n)
       (filter (\<lambda>p. array_index (fst p) \<noteq> None) ps)"

definition string_entries :: "jsprops \<Rightarrow> jsprops" where
  "string_entries ps = filter (\<lambda>p. array_index (fst p) = None) ps"

definition own_entries :: "jsobject \<Rightarrow> jsprops" where
  "own_entries obj = index_entries (props obj) @ string_entries (props obj)"

definition own_keys :: "jsobject \<Rightarrow> string list" where
  "own_keys obj = map fst (own_entries obj)"

text \<open>The two parts of the enumeration.\<close>

definition index_keys :: "jsobject \<Rightarrow> string list" where
  "index_keys obj = map fst (index_entries (props obj))"

definition string_keys :: "jsobject \<Rightarrow> string list" where
  "string_keys obj = map fst (string_entries (props obj))"

text \<open>The groups of an object concatenated in enumeration order.\<close>

definition flatten :: "jsobject \<Rightarrow> jsrecord list" where
  "flatten obj =
     concat (map (\<lambda>e. case snd e of None \<Rightarrow> [] | Some arr \<Rightarrow> arr) (own_entries obj))"

section \<open>\<open>groupBy\<close>\<close>

definition resolve :: "keyrule \<Rightarrow> jsrecord \<Rightarrow> error + key" where
  "resolve property =
     (case property of
        FieldName propName \<Rightarrow> (\<lambda>obj. get_field obj propName)
      | Callable f \<Rightarrow> f)"

definition fill_result :: "jsmap \<Rightarrow> jsobject" where
  "fill_result groupedObjects =
     fold (\<lambda>key result. obj_set result (ToString key) (map_get groupedObjects key))
       (array_sort (map_keys groupedObjects)) empty_object"

definition groupBy :: "jsrecord list \<Rightarrow> keyrule \<Rightarrow> error + jsobject" where
  "groupBy objects property =
     (case group_loop (resolve property) objects [] of
        Inl e \<Rightarrow> Inl e
      | Inr groupedObjects \<Rightarrow> Inr (fill_result groupedObjects))"

section \<open>\<open>groupBy\<close> on a store\<close>

text \<open>
  The same function with its objects in a store, to state what a call writes. A cell is
  an input object, an array, the array of keys, the \<open>Map\<close> or the plain object; an element
  of the input array is \<open>undefined\<close>, \<open>null\<close> or a reference to a cell. Allocation takes the
  next free address. A key function reads the store and the element and writes nothing.
\<close>

type_synonym addr = nat

datatype jsval = VUndefined | VNull | VRef addr

datatype cell =
    CRecord "(string \<times> key) list"
  | CArray "jsval list"
  | CKeys "key list"
  | CMap "(key \<times> addr) list"
  | CObject "(string \<times> jsval) list" "addr option"

record heap =
  cells :: "addr \<Rightarrow> cell option"
  next_addr :: addr

definition heap_alloc :: "heap \<Rightarrow> cell \<Rightarrow> addr \<times> heap" where
  "heap_alloc h c =
     (next_addr h, \<lparr>cells = (cells h)(next_addr h \<mapsto> c), next_addr = Suc (next_addr h)\<rparr>)"

definition heap_write :: "heap \<Rightarrow> addr \<Rightarrow> cell \<Rightarrow> heap" where
  "heap_write h a c = h\<lparr>cells := (cells h)(a \<mapsto> c)\<rparr>"

text \<open>\<open>obj[propName]\<close>; a cell that is not an input object has no such property.\<close>

definition get_field_heap :: "heap \<Rightarrow> jsval \<Rightarrow> string \<Rightarrow> error + key" where
  "get_field_heap h obj propName =
     (case obj of
        VUndefined \<Rightarrow> Inl TypeError
      | VNull \<Rightarrow> Inl TypeError
      | VRef a \<Rightarrow>
          (case cells h a of
             Some (CRecord flds) \<Rightarrow>
               (case map_of flds propName of None \<Rightarrow> Inr Undefined | Some v \<Rightarrow> Inr v)
           | _ \<Rightarrow> Inr Undefined))"

datatype keyrule_heap = FieldName_heap string | Callable_heap "heap \<Rightarrow> jsval \<Rightarrow> error + key"

definition resolve_heap :: "keyrule_heap \<Rightarrow> heap \<Rightarrow> jsval \<Rightarrow> error + key" where
  "resolve_heap property =
     (case property of
        FieldName_heap propName \<Rightarrow> (\<lambda>h obj. get_field_heap h obj propName)
      | Callable_heap f \<Rightarrow> f)"

definition map_entries :: "heap \<Rightarrow> addr \<Rightarrow> (key \<times> addr) list" where
  "map_entries h m = (case cells h m of Some (CMap es) \<Rightarrow> es | _ \<Rightarrow> [])"

fun entries_set :: "(key \<times> addr) list \<Rightarrow> key \<Rightarrow> addr \<Rightarrow> (key \<times> addr) list" where
  "entries_set [] k a = [(k, a)]"
| "entries_set ((k', a') # es) k a =
     (if k' = k then (k, a) # es else (k', a') # entries_set es k a)"

definition heap_map_has :: "heap \<Rightarrow> addr \<Rightarrow> key \<Rightarrow> bool" where
  "heap_map_has h m k = (map_of (map_entries h m) k \<noteq> None)"

definition heap_map_get :: "heap \<Rightarrow> addr \<Rightarrow> key \<Rightarrow> jsval" where
  "heap_map_get h m k = (case map_of (map_entries h m) k of None \<Rightarrow> VUndefined | Some a \<Rightarrow> VRef a)"

definition heap_map_set :: "heap \<Rightarrow> addr \<Rightarrow> key \<Rightarrow> addr \<Rightarrow> heap" where
  "heap_map_set h m k a = heap_write h m (CMap (entries_set (map_entries h m) k a))"

text \<open>\<open>arr.push(v)\<close>: a TypeError when \<open>arr\<close> is not an array.\<close>

definition array_push :: "heap \<Rightarrow> jsval \<Rightarrow> jsval \<Rightarrow> error option \<times> heap" where
  "array_push h arr v =
     (case arr of
        VRef a \<Rightarrow>
          (case cells h a of
             Some (CArray elems) \<Rightarrow> (None, heap_write h a (CArray (elems @ [v])))
           | _ \<Rightarrow> (Some TypeError, h))
      | _ \<Rightarrow> (Some TypeError, h))"

fun group_loop_heap ::
  "(heap \<Rightarrow> jsval \<Rightarrow> error + key) \<Rightarrow> addr \<Rightarrow> jsval list \<Rightarrow> heap \<Rightarrow> error option \<times> heap" where
  "group_loop_heap property groupedObjects [] h = (None, h)"
| "group_loop_heap property groupedObjects (object # objects) h =
     (case property h object of
        Inl e \<Rightarrow> (Some e, h)
      | Inr groupName \<Rightarrow>
          (let h1 = (if \<not> heap_map_has h groupedObjects groupName
                     then (case heap_alloc h (CArray []) of
                             (a, h') \<Rightarrow> heap_map_set h' groupedObjects groupName a)
                     else h)
           in case array_push h1 (heap_map_get h1 groupedObjects groupName) object of
                (Some e, h2) \<Rightarrow> (Some e, h2)
              | (None, h2) \<Rightarrow> group_loop_heap property groupedObjects objects h2))"

fun props_put :: "(string \<times> jsval) list \<Rightarrow> string \<Rightarrow> jsval \<Rightarrow> (string \<times> jsval) list" where
  "props_put [] name v = [(name, v)]"
| "props_put ((name', v') # ps) name v =
     (if name' = name then (name, v) # ps else (name', v') # props_put ps name v)"

definition obj_set_heap :: "heap \<Rightarrow> addr \<Rightarrow> string \<Rightarrow> jsval \<Rightarrow> heap" where
  "obj_set_heap h r name v =
     (case cells h r of
        Some (CObject ps pr) \<Rightarrow>
          (if name = ''__proto__''
           then (case v of VRef a \<Rightarrow> heap_write h r (CObject ps (Some a)) | _ \<Rightarrow> h)
           else heap_write h r (CObject (props_put ps name v) pr))
      | _ \<Rightarrow> h)"

definition keys_elems :: "heap \<Rightarrow> addr \<Rightarrow> key list" where
  "keys_elems h a = (case cells h a of Some (CKeys ks) \<Rightarrow> ks | _ \<Rightarrow> [])"

definition keys_sort :: "heap \<Rightarrow> addr \<Rightarrow> heap" where
  "keys_sort h a = heap_write h a (CKeys (array_sort (keys_elems h a)))"

definition fill_result_heap :: "addr \<Rightarrow> addr \<Rightarrow> key list \<Rightarrow> heap \<Rightarrow> heap" where
  "fill_result_heap groupedObjects result ks h =
     fold (\<lambda>key h. obj_set_heap h result (ToString key) (heap_map_get h groupedObjects key)) ks h"

text \<open>
  The call: the \<open>Map\<close> is allocated, the input array is iterated (a TypeError when
  \<open>objects\<close> is not an array), then the result object and the array of keys are allocated,
  the keys are sorted in place and the groups are assigned to the result.
\<close>

definition groupBy_heap :: "heap \<Rightarrow> addr \<Rightarrow> keyrule_heap \<Rightarrow> (error + addr) \<times> heap" where
  "groupBy_heap h objects property =
     (case heap_alloc h (CMap []) of
        (groupedObjects, h1) \<Rightarrow>
          (case cells h1 objects of
             Some (CArray elems) \<Rightarrow>
               (case group_loop_heap (resolve_heap property) groupedObjects elems h1 of
                  (Some e, h2) \<Rightarrow> (Inl e, h2)
                | (None, h2) \<Rightarrow>
                    (case heap_alloc h2 (CObject [] None) of
                       (result, h3) \<Rightarrow>
                         (case heap_alloc h3 (CKeys (map fst (map_entries h3 groupedObjects))) of
                            (keys, h4) \<Rightarrow>
                              (let h5 = keys_sort h4 keys
                               in (Inr result,
                                   fill_result_heap groupedObjects result (keys_elems h5 keys) h5)))))
           | _ \<Rightarrow> (Inl TypeError, h1)))"

section \<open>Notions used to state the properties\<close>

text \<open>The distinct elements of a list, in the order of their first occurrence.\<close>

definition first_seen :: "'a list \<Rightarrow> 'a list" where
  "first_seen xs = rev (remdups (rev xs))"

text \<open>The group name of a record on which the key derivation returns.\<close>

definition derived_key :: "(jsrecord \<Rightarrow> error + key) \<Rightarrow> jsrecord \<Rightarrow> key" where
  "derived_key p r = (case p r of Inl e \<Rightarrow> Undefined | Inr k \<Rightarrow> k)"

text \<open>
  The contents of \<open>groupedObjects\<close> after the first loop: one entry per group name, in
  order of first appearance, holding the records of that name in input order.
\<close>

definition grouping :: "(jsrecord \<Rightarrow> error + key) \<Rightarrow> jsrecord list \<Rightarrow> jsmap" where
  "grouping p xs =
     map (\<lambda>k. (k, filter (\<lambda>r. p r = Inr k) xs)) (first_seen (map (derived_key p) xs))"

text \<open>
  No two group names of the input have the same string, and none has the string
  \<open>__proto__\<close>.
\<close>

definition collision_free :: "(jsrecord \<Rightarrow> error + key) \<Rightarrow> jsrecord list \<Rightarrow> bool" where
  "collision_free p xs =
     (let names = map ToString (first_seen (map (derived_key p) xs))
      in distinct names \<and> ''__proto__'' \<notin> set names)"

text \<open>The enumeration order of an object, on the group names behind its keys.\<close>

definition enumeration :: "key list \<Rightarrow> key list" where
  "enumeration ks =
     sort_key (\<lambda>k. case array_index (ToString k) of None \<Rightarrow> 0 | Some n \<Rightarrow> n)
       (filter (\<lambda>k. array_index (ToString k) \<noteq> None) ks)
     @ filter (\<lambda>k. array_index (ToString k) = None) ks"



text \<open>
  Reading the store as values: the record an element stands for, the records of an array,
  the contents of the \<open>Map\<close> and of the result object.
\<close>

definition deref :: "heap \<Rightarrow> jsval \<Rightarrow> jsrecord" where
  "deref h v =
     (case v of
        VUndefined \<Rightarrow> RUndefined
      | VNull \<Rightarrow> RNull
      | VRef a \<Rightarrow> (case cells h a of Some (CRecord flds) \<Rightarrow> RObj flds | _ \<Rightarrow> RObj []))"

definition array_elems :: "heap \<Rightarrow> addr \<Rightarrow> jsval list" where
  "array_elems h a = (case cells h a of Some (CArray es) \<Rightarrow> es | _ \<Rightarrow> [])"

definition abs_group :: "heap \<Rightarrow> addr \<Rightarrow> jsrecord list" where
  "abs_group h a = map (deref h) (array_elems h a)"

definition abs_map :: "heap \<Rightarrow> addr \<Rightarrow> jsmap" where
  "abs_map h m = map (\<lambda>e. (fst e, abs_group h (snd e))) (map_entries h m)"

definition abs_val :: "heap \<Rightarrow> jsval \<Rightarrow> jsrecord list option" where
  "abs_val h v = (case v of VRef a \<Rightarrow> Some (abs_group h a) | _ \<Rightarrow> None)"

definition abs_object :: "heap \<Rightarrow> addr \<Rightarrow> jsobject" where
  "abs_object h r =
     (case cells h r of
        Some (CObject ps pr) \<Rightarrow>
          \<lparr>props = map (\<lambda>e. (fst e, abs_val h (snd e))) ps, proto = map_option (abs_group h) pr\<rparr>
      | _ \<Rightarrow> empty_object)"

text \<open>
  The \<open>Map\<close> at \<open>m\<close> during the first loop: nothing is allocated beyond the next free
  address, the names are distinct, and each name has an array of its own.
\<close>

definition map_inv :: "heap \<Rightarrow> addr \<Rightarrow> bool" where
  "map_inv h m =
     ((\<forall>a\<ge>next_addr h. cells h a = None)
      \<and> (\<exists>es. cells h m = Some (CMap es))
      \<and> distinct (map fst (map_entries h m))
      \<and> distinct (map snd (map_entries h m))
      \<and> (\<forall>e\<in>set (map_entries h m). \<exists>xs. cells h (snd e) = Some (CArray xs)))"

text \<open>A cell that is free, a plain object or an array of keys.\<close>

definition plain_cell :: "cell option \<Rightarrow> bool" where
  "plain_cell c = (case c of None \<Rightarrow> True | Some (CObject ps pr) \<Rightarrow> True | Some (CKeys ks) \<Rightarrow> True
                   | _ \<Rightarrow> False)"


section \<open>Evaluation on concrete inputs\<close>

lemmas groupBy_eval =
  groupBy_def resolve_def group_step_def map_has_def map_get_def fill_result_def map_keys_def
  array_sort_def obj_set_def empty_object_def string_of_int_def string_of_nat.simps
  digit_char_def own_keys_def own_entries_def index_entries_def string_entries_def
  array_index_def nat_of_string_def is_digit_def digit_val_def digit_table_def
  index_keys_def string_keys_def flatten_def


section \<open>The two loops\<close>

subsection \<open>The first loop\<close>

lemma first_seen_Nil [simp]: "first_seen [] = []"
  by (simp add: first_seen_def)

lemma first_seen_snoc:
  "first_seen (xs @ [x]) = (if x \<in> set xs then first_seen xs else first_seen xs @ [x])"
  by (simp add: first_seen_def)

lemma set_first_seen [simp]: "set (first_seen xs) = set xs"
  by (simp add: first_seen_def)

lemma distinct_first_seen [simp]: "distinct (first_seen xs)"
  by (simp add: first_seen_def)

lemma map_set_absent: "map_of m k = None \<Longrightarrow> map_set m k v = m @ [(k, v)]"
  by (induction m) (auto split: if_splits)

lemma map_set_present:
  "distinct ks \<Longrightarrow> k \<in> set ks \<Longrightarrow>
   map_set (map (\<lambda>k'. (k', f k')) ks) k v = map (\<lambda>k'. (k', if k' = k then v else f k')) ks"
  by (induction ks) auto

lemma map_of_tabulate: "map_of (map (\<lambda>k. (k, f k)) ks) k = (if k \<in> set ks then Some (f k) else None)"
  by (induction ks) auto

lemma map_set_last: "map_of m k = None \<Longrightarrow> map_set (m @ [(k, u)]) k v = m @ [(k, v)]"
  by (induction m) (auto split: if_splits)

lemma map_of_map_set: "map_of (map_set m k v) = (map_of m)(k \<mapsto> v)"
  by (induction m) auto

lemma group_step_total: "\<exists>m'. group_step m k x = Inr m'"
proof (cases "map_of m k")
  case None
  then show ?thesis
    by (simp add: group_step_def map_has_def map_get_def map_of_map_set)
next
  case (Some a)
  then show ?thesis
    by (simp add: group_step_def map_has_def map_get_def)
qed

lemma group_loop_snoc:
  "group_loop p (xs @ [x]) m =
     (case group_loop p xs m of
        Inl e \<Rightarrow> Inl e
      | Inr m' \<Rightarrow> (case p x of Inl e \<Rightarrow> Inl e | Inr k \<Rightarrow> group_step m' k x))"
  by (induction xs arbitrary: m) (auto split: sum.splits)

lemma group_step_grouping:
  assumes ok: "\<forall>r\<in>set xs. \<exists>k. p r = Inr k" and px: "p x = Inr k"
  shows "group_step (grouping p xs) k x = Inr (grouping p (xs @ [x]))"
proof -
  let ?ks = "first_seen (map (derived_key p) xs)"
  let ?f = "\<lambda>k. filter (\<lambda>r. p r = Inr k) xs"
  have dk: "derived_key p x = k" using px by (simp add: derived_key_def)
  have dkr: "p r = Inr (derived_key p r)" if "r \<in> set xs" for r
    using ok that by (auto simp: derived_key_def)
  have mem: "k' \<in> set (map (derived_key p) xs) \<longleftrightarrow> (\<exists>r\<in>set xs. p r = Inr k')" for k'
  proof
    assume "k' \<in> set (map (derived_key p) xs)"
    then obtain r where "r \<in> set xs" "derived_key p r = k'" by auto
    then show "\<exists>r\<in>set xs. p r = Inr k'" using dkr by auto
  next
    assume "\<exists>r\<in>set xs. p r = Inr k'"
    then obtain r where "r \<in> set xs" "p r = Inr k'" by auto
    then have "derived_key p r = k'" by (simp add: derived_key_def)
    then show "k' \<in> set (map (derived_key p) xs)" using \<open>r \<in> set xs\<close> by auto
  qed
  show ?thesis
  proof (cases "k \<in> set (map (derived_key p) xs)")
    case True
    then have kin: "k \<in> set ?ks" by simp
    have "group_step (grouping p xs) k x = Inr (map_set (grouping p xs) k (?f k @ [x]))"
      using kin by (simp add: group_step_def grouping_def map_has_def map_get_def map_of_tabulate)
    also have "map_set (grouping p xs) k (?f k @ [x])
        = map (\<lambda>k'. (k', if k' = k then ?f k @ [x] else ?f k')) ?ks"
      unfolding grouping_def by (rule map_set_present) (use kin in simp_all)
    also have "\<dots> = grouping p (xs @ [x])"
      using True px by (auto simp: grouping_def first_seen_snoc dk)
    finally show ?thesis .
  next
    case False
    then have kout: "k \<notin> set ?ks" by simp
    have none: "map_of (grouping p xs) k = None"
      using kout by (simp add: grouping_def map_of_tabulate)
    have empty: "?f k = []"
      using False mem by (auto simp: filter_empty_conv)
    have "group_step (grouping p xs) k x = Inr (map_set (grouping p xs @ [(k, [])]) k [x])"
      using none by (simp add: group_step_def map_has_def map_get_def map_set_absent map_add_def)
    also have "map_set (grouping p xs @ [(k, [])]) k [x] = grouping p xs @ [(k, [x])]"
      using none by (rule map_set_last)
    also have "\<dots> = grouping p (xs @ [x])"
      using False px kout empty by (auto simp: grouping_def first_seen_snoc dk)
    finally show ?thesis .
  qed
qed

lemma group_loop_grouping:
  "\<forall>r\<in>set xs. \<exists>k. p r = Inr k \<Longrightarrow> group_loop p xs [] = Inr (grouping p xs)"
proof (induction xs rule: rev_induct)
  case Nil
  then show ?case by (simp add: grouping_def)
next
  case (snoc x xs)
  then obtain k where px: "p x = Inr k" by auto
  from snoc have "group_loop p xs [] = Inr (grouping p xs)" by simp
  then show ?case
    using px snoc.prems by (simp add: group_loop_snoc group_step_grouping)
qed

lemma group_loop_Inr_ok:
  "group_loop p xs m = Inr m' \<Longrightarrow> \<forall>r\<in>set xs. \<exists>k. p r = Inr k"
  by (induction xs arbitrary: m) (auto split: sum.splits)

lemma group_loop_error:
  assumes "\<forall>r\<in>set pre. \<exists>k. p r = Inr k" and "p r = Inl e"
  shows "group_loop p (pre @ r # post) m = Inl e"
  using assms(1)
proof (induction pre arbitrary: m)
  case Nil
  then show ?case using assms(2) by simp
next
  case (Cons a pre)
  then obtain k where "p a = Inr k" by auto
  moreover obtain m' where "group_step m k a = Inr m'" using group_step_total by blast
  ultimately show ?case using Cons by simp
qed


subsection \<open>The second loop\<close>

lemma props_fold_obj_set:
  "props (fold (\<lambda>k r. obj_set r (ToString k) (g k)) ks r0) =
   fold (\<lambda>k ps. prop_put ps (ToString k) (g k))
     (filter (\<lambda>k. ToString k \<noteq> ''__proto__'') ks) (props r0)"
  by (induction ks arbitrary: r0) (auto simp: obj_set_def split: option.splits)

lemma keys_prop_put:
  "map fst (prop_put ps n v) = (if n \<in> set (map fst ps) then map fst ps else map fst ps @ [n])"
  by (induction ps) force+

lemma set_prop_put: "set (prop_put ps n v) \<subseteq> insert (n, v) (set ps)"
  by (induction ps) (auto split: if_splits)

lemma map_of_prop_put: "map_of (prop_put ps n v) = (map_of ps)(n \<mapsto> v)"
  by (induction ps) auto

lemma keys_fold_prop_put:
  "map fst (fold (\<lambda>k ps. prop_put ps (f k) (g k)) ks []) = first_seen (map f ks)"
  by (induction ks rule: rev_induct) (auto simp: keys_prop_put first_seen_snoc)

lemma set_fold_prop_put:
  "(n, v) \<in> set (fold (\<lambda>k ps. prop_put ps (f k) (g k)) ks []) \<Longrightarrow> \<exists>k\<in>set ks. f k = n \<and> g k = v"
proof (induction ks arbitrary: n v rule: rev_induct)
  case Nil
  then show ?case by simp
next
  case (snoc x xs)
  then show ?case using set_prop_put by fastforce
qed

lemma map_of_fold_prop_put:
  "map_of (fold (\<lambda>k ps. prop_put ps (f k) (g k)) ks []) = map_of (rev (map (\<lambda>k. (f k, g k)) ks))"
  by (induction ks rule: rev_induct) (auto simp: map_of_prop_put)

lemma set_array_sort [simp]: "set (array_sort ks) = set ks"
  by (auto simp: array_sort_def)

lemma map_keys_grouping: "map_keys (grouping p xs) = first_seen (map (derived_key p) xs)"
  by (simp add: map_keys_def grouping_def comp_def)

lemma map_get_grouping:
  "k \<in> set (map (derived_key p) xs) \<Longrightarrow>
   map_get (grouping p xs) k = Some (filter (\<lambda>r. p r = Inr k) xs)"
  by (simp add: map_get_def grouping_def map_of_tabulate)

lemma groupBy_Inr:
  assumes "groupBy objects property = Inr result"
  shows "(\<forall>r\<in>set objects. \<exists>k. resolve property r = Inr k) \<and>
         result = fill_result (grouping (resolve property) objects)"
proof -
  from assms obtain m where m: "group_loop (resolve property) objects [] = Inr m"
    and r: "result = fill_result m"
    by (auto simp: groupBy_def split: sum.splits)
  from m have ok: "\<forall>r\<in>set objects. \<exists>k. resolve property r = Inr k"
    by (rule group_loop_Inr_ok)
  then have "m = grouping (resolve property) objects"
    using m by (simp add: group_loop_grouping)
  with ok r show ?thesis by simp
qed

lemma groupBy_ok:
  "\<forall>r\<in>set objects. \<exists>k. resolve property r = Inr k \<Longrightarrow>
   groupBy objects property = Inr (fill_result (grouping (resolve property) objects))"
  by (simp add: groupBy_def group_loop_grouping)

lemma props_fill_result:
  "props (fill_result m) =
   fold (\<lambda>k ps. prop_put ps (ToString k) (map_get m k))
     (filter (\<lambda>k. ToString k \<noteq> ''__proto__'') (array_sort (map_keys m))) []"
  by (simp add: fill_result_def props_fold_obj_set empty_object_def)

lemma set_index_entries: "set (index_entries ps) = {p \<in> set ps. array_index (fst p) \<noteq> None}"
  by (simp add: index_entries_def)

lemma set_own_entries [simp]: "set (own_entries obj) = set (props obj)"
  by (auto simp: own_entries_def set_index_entries string_entries_def)

lemma entry_of_fill_result:
  assumes "(name, v) \<in> set (own_entries (fill_result (grouping p xs)))"
  shows "\<exists>k. ToString k = name \<and> name \<noteq> ''__proto__'' \<and> k \<in> set (map (derived_key p) xs)
           \<and> v = Some (filter (\<lambda>r. p r = Inr k) xs)"
proof -
  from assms have "(name, v) \<in> set (props (fill_result (grouping p xs)))" by simp
  then obtain k where k: "k \<in> set (filter (\<lambda>k. ToString k \<noteq> ''__proto__'')
        (array_sort (map_keys (grouping p xs))))" "ToString k = name"
      "map_get (grouping p xs) k = v"
    unfolding props_fill_result by (blast dest: set_fold_prop_put)
  then have "k \<in> set (map (derived_key p) xs)" by (simp add: map_keys_grouping)
  with k show ?thesis by (auto simp: map_get_grouping)
qed


section \<open>The enumeration of the result\<close>

subsection \<open>Decimal strings and array indices\<close>

lemma digit_cases: "d < 10 \<Longrightarrow> d \<in> {0, 1, 2, 3, 4, 5, 6, 7, 8, 9::nat}"
  by auto

lemma digit_char_table: "d < 10 \<Longrightarrow> map_of digit_table (digit_char d) = Some d"
  by (drule digit_cases) (auto simp: digit_char_def digit_table_def)


lemma is_digit_digit_char: "d < 10 \<Longrightarrow> is_digit (digit_char d)"
  by (simp add: is_digit_def digit_char_table)

lemma digit_val_digit_char: "d < 10 \<Longrightarrow> digit_val (digit_char d) = d"
  by (simp add: digit_val_def digit_char_table)

lemma nat_of_string_snoc: "nat_of_string (s @ [c]) = 10 * nat_of_string s + digit_val c"
  by (simp add: nat_of_string_def)

lemma string_of_nat_nonempty: "string_of_nat n \<noteq> []"
  by (subst string_of_nat.simps) simp


lemma digits_string_of_nat: "list_all is_digit (string_of_nat n)"
proof (induction n rule: string_of_nat.induct)
  case (1 n)
  show ?case
  proof (cases "n < 10")
    case True
    then show ?thesis by (subst string_of_nat.simps) (simp add: is_digit_digit_char)
  next
    case False
    with 1 show ?thesis by (subst string_of_nat.simps) (simp add: is_digit_digit_char)
  qed
qed

lemma nat_of_string_string_of_nat: "nat_of_string (string_of_nat n) = n"
proof (induction n rule: string_of_nat.induct)
  case (1 n)
  show ?case
  proof (cases "n < 10")
    case True
    then show ?thesis
      by (subst string_of_nat.simps) (simp add: nat_of_string_def digit_val_digit_char)
  next
    case False
    with 1 show ?thesis
      by (subst string_of_nat.simps) (simp add: nat_of_string_snoc digit_val_digit_char)
  qed
qed

lemma string_of_nat_inj: "string_of_nat m = string_of_nat n \<Longrightarrow> m = n"
  by (metis nat_of_string_string_of_nat)

lemma array_index_string_of_nat:
  "array_index (string_of_nat n) = (if n < 4294967295 then Some n else None)"
  by (simp add: array_index_def nat_of_string_string_of_nat digits_string_of_nat
      string_of_nat_nonempty)

lemma array_index_SomeD: "array_index s = Some n \<Longrightarrow> s = string_of_nat n \<and> n < 4294967295"
  by (auto simp: array_index_def split: if_splits)

lemma array_index_Some_nat_of_string: "array_index s \<noteq> None \<Longrightarrow> array_index s = Some (nat_of_string s)"
  by (auto simp: array_index_def split: if_splits)


lemma array_index_proto: "array_index ''__proto__'' = None"
  by (simp add: array_index_def is_digit_def digit_table_def)



subsection \<open>First occurrences\<close>

lemma first_seen_filter: "first_seen (filter P xs) = filter P (first_seen xs)"
  by (simp add: first_seen_def rev_filter remdups_filter)

lemma sorted_first_seen: "sorted xs \<Longrightarrow> sorted (first_seen xs)"
proof (induction xs rule: rev_induct)
  case Nil
  then show ?case by simp
next
  case (snoc x xs)
  then show ?case by (auto simp: first_seen_snoc sorted_append)
qed

lemma first_seen_distinct: "distinct xs \<Longrightarrow> first_seen xs = xs"
  by (simp add: first_seen_def distinct_remdups_id)

subsection \<open>Names of the result in creation order\<close>

lemma keys_fill_result:
  "map fst (props (fill_result m)) =
   first_seen (map ToString (filter (\<lambda>k. ToString k \<noteq> ''__proto__'') (array_sort (map_keys m))))"
  by (simp add: props_fill_result keys_fold_prop_put)

lemma distinct_own_keys_fill: "distinct (own_keys (fill_result m))"
proof -
  have d: "distinct (map fst (props (fill_result m)))" by (simp add: keys_fill_result)
  have "distinct (map fst (index_entries (props (fill_result m))))"
    using d by (auto simp: index_entries_def distinct_map intro: inj_on_subset)
  moreover have "distinct (map fst (string_entries (props (fill_result m))))"
    using d by (simp add: string_entries_def distinct_map_filter)
  moreover have "set (map fst (index_entries ps)) \<inter> set (map fst (string_entries ps)) = {}" for ps
    by (auto simp: index_entries_def string_entries_def)
  ultimately show ?thesis by (simp add: own_keys_def own_entries_def)
qed


lemma own_keys_split: "own_keys obj = index_keys obj @ string_keys obj"
  by (simp add: own_keys_def own_entries_def index_keys_def string_keys_def)

lemma string_keys_filter:
  "string_keys obj = filter (\<lambda>s. array_index s = None) (map fst (props obj))"
  by (simp add: string_keys_def string_entries_def filter_map comp_def)

lemma sorted_index_keys: "sorted (map nat_of_string (index_keys obj))"
proof -
  let ?idx = "\<lambda>p::string \<times> jsrecord list option.
      case array_index (fst p) of None \<Rightarrow> 0 | Some n \<Rightarrow> n"
  let ?Z = "filter (\<lambda>p. array_index (fst p) \<noteq> None) (props obj)"
  have "map nat_of_string (index_keys obj) = map (\<lambda>p. nat_of_string (fst p)) (sort_key ?idx ?Z)"
    by (simp add: index_keys_def index_entries_def comp_def)
  also have "\<dots> = map ?idx (sort_key ?idx ?Z)"
    by (rule map_cong) (auto dest: array_index_Some_nat_of_string [OF  notI] simp: array_index_def)
  finally show ?thesis by simp
qed

lemma index_keys_are_indices: "s \<in> set (index_keys obj) \<Longrightarrow> array_index s \<noteq> None"
  by (auto simp: index_keys_def index_entries_def)

lemma string_keys_not_indices: "s \<in> set (string_keys obj) \<Longrightarrow> array_index s = None"
  by (auto simp: string_keys_def string_entries_def)

lemma derived_key_mem:
  assumes "\<forall>r\<in>set xs. \<exists>k. p r = Inr k"
  shows "k \<in> set (map (derived_key p) xs) \<longleftrightarrow> (\<exists>r\<in>set xs. p r = Inr k)"
proof
  assume "k \<in> set (map (derived_key p) xs)"
  then obtain r where r: "r \<in> set xs" "derived_key p r = k" by auto
  with assms obtain k' where "p r = Inr k'" by auto
  with r show "\<exists>r\<in>set xs. p r = Inr k" by (auto simp: derived_key_def)
next
  assume "\<exists>r\<in>set xs. p r = Inr k"
  then obtain r where "r \<in> set xs" "p r = Inr k" by auto
  then show "k \<in> set (map (derived_key p) xs)"
    by (auto simp: derived_key_def image_iff intro!: bexI [of _ r])
qed

lemma sorted_names_without_undefined:
  "sorted (filter (\<lambda>s. s \<noteq> ''undefined'') (map fst (props (fill_result m))))"
proof -
  let ?np = "\<lambda>k. ToString k \<noteq> ''__proto__''"
  let ?A = "sort_key ToString (filter (\<lambda>k. k \<noteq> Undefined) (map_keys m))"
  let ?us = "filter (\<lambda>k. k = Undefined) (map_keys m)"
  let ?S = "map ToString (filter ?np ?A)"
  let ?U = "map ToString (filter ?np ?us)"
  have names: "map fst (props (fill_result m)) = first_seen (?S @ ?U)"
    by (simp add: keys_fill_result array_sort_def)
  have U: "filter (\<lambda>s. s \<noteq> ''undefined'') ?U = []"
    by (auto simp: filter_empty_conv)
  have "sorted (map ToString ?A)" by simp
  then have "sorted ?S" by (rule sorted_filter)
  then have "sorted (first_seen (filter (\<lambda>s. s \<noteq> ''undefined'') ?S))"
    by (intro sorted_first_seen sorted_wrt_filter)
  then show ?thesis
    by (simp add: names first_seen_filter [symmetric] U)
qed

lemma sorted_names_no_undefined:
  assumes "Undefined \<notin> set (map_keys m)"
  shows "sorted (map fst (props (fill_result m)))"
proof -
  let ?np = "\<lambda>k. ToString k \<noteq> ''__proto__''"
  let ?A = "sort_key ToString (filter (\<lambda>k. k \<noteq> Undefined) (map_keys m))"
  have "filter (\<lambda>k. k = Undefined) (map_keys m) = []"
    using assms by (auto simp: filter_empty_conv)
  then have names: "map fst (props (fill_result m)) = first_seen (map ToString (filter ?np ?A))"
    by (simp add: keys_fill_result array_sort_def)
  have "sorted (map ToString ?A)" by simp
  then have "sorted (map ToString (filter ?np ?A))" by (rule sorted_filter)
  then show ?thesis unfolding names by (rule sorted_first_seen)
qed

subsection \<open>The group of the missing key\<close>

lemma filter_eq_distinct: "distinct ks \<Longrightarrow> k \<in> set ks \<Longrightarrow> filter (\<lambda>x. x = k) ks = [k]"
  by (induction ks) (auto simp: filter_empty_conv)


lemma prop_put_absent: "n \<notin> set (map fst ps) \<Longrightarrow> prop_put ps n v = ps @ [(n, v)]"
  by (induction ps) auto





subsection \<open>Array-index group names\<close>

lemma string_of_int_nat: "string_of_int (int n) = string_of_nat n"
  by (simp add: string_of_int_def)


section \<open>Inputs without colliding group names\<close>

lemma insort_key_map:
  "insort_key f (h x) (map h ys) = map h (insort_key (\<lambda>y. f (h y)) x ys)"
  by (induction ys) auto

lemma sort_key_map: "sort_key f (map h xs) = map h (sort_key (\<lambda>y. f (h y)) xs)"
  by (induction xs) (simp_all add: insort_key_map)

lemma fold_prop_put_distinct:
  "distinct (map f ks) \<Longrightarrow>
   fold (\<lambda>k ps. prop_put ps (f k) (g k)) ks [] = map (\<lambda>k. (f k, g k)) ks"
proof (induction ks rule: rev_induct)
  case Nil
  then show ?case by simp
next
  case (snoc k ks)
  then have "f k \<notin> set (map fst (map (\<lambda>k. (f k, g k)) ks))" by (auto simp: comp_def)
  with snoc show ?case by (simp add: prop_put_absent)
qed

lemma map_of_tabulate_inj:
  "inj_on f (set ks) \<Longrightarrow> k \<in> set ks \<Longrightarrow> map_of (map (\<lambda>k. (f k, g k)) ks) (f k) = Some (g k)"
  by (induction ks) (auto simp: inj_on_def)

lemma distinct_array_sort: "distinct ks \<Longrightarrow> distinct (array_sort ks)"
  by (auto simp: array_sort_def)

lemma set_enumeration [simp]: "set (enumeration ks) = set ks"
  by (auto simp: enumeration_def)

lemma distinct_enumeration: "distinct ks \<Longrightarrow> distinct (enumeration ks)"
  by (auto simp: enumeration_def)

lemma own_entries_tabulate:
  "own_entries \<lparr>props = map (\<lambda>k. (ToString k, g k)) ks, proto = q\<rparr>
     = map (\<lambda>k. (ToString k, g k)) (enumeration ks)"
  by (simp add: own_entries_def index_entries_def string_entries_def enumeration_def
      filter_map comp_def sort_key_map)

lemma props_collision_free:
  assumes ok: "\<forall>r\<in>set xs. \<exists>k. p r = Inr k" and cf: "collision_free p xs"
  shows "props (fill_result (grouping p xs)) =
     map (\<lambda>k. (ToString k, Some (filter (\<lambda>r. p r = Inr k) xs)))
       (array_sort (first_seen (map (derived_key p) xs)))"
proof -
  let ?ks = "first_seen (map (derived_key p) xs)"
  let ?m = "grouping p xs"
  from cf have d: "distinct (map ToString ?ks)" and np: "''__proto__'' \<notin> set (map ToString ?ks)"
    by (simp_all add: collision_free_def Let_def)
  have inj: "inj_on ToString (set ?ks)" using d by (simp add: distinct_map)
  have "distinct (array_sort ?ks)" by (simp add: distinct_array_sort)
  then have d': "distinct (map ToString (array_sort ?ks))"
    using inj by (simp add: distinct_map)
  have all: "filter (\<lambda>k. ToString k \<noteq> ''__proto__'') (array_sort ?ks) = array_sort ?ks"
    using np by (auto simp: filter_id_conv) (metis imageI)
  have "props (fill_result ?m) =
      map (\<lambda>k. (ToString k, map_get ?m k)) (array_sort ?ks)"
    by (simp add: props_fill_result map_keys_grouping all fold_prop_put_distinct [OF d'])
  also have "\<dots> = map (\<lambda>k. (ToString k, Some (filter (\<lambda>r. p r = Inr k) xs))) (array_sort ?ks)"
    by (rule map_cong) (simp_all add: map_get_grouping)
  finally show ?thesis .
qed

lemma own_entries_collision_free:
  assumes ok: "\<forall>r\<in>set xs. \<exists>k. p r = Inr k" and cf: "collision_free p xs"
  shows "own_entries (fill_result (grouping p xs)) =
     map (\<lambda>k. (ToString k, Some (filter (\<lambda>r. p r = Inr k) xs)))
       (enumeration (array_sort (first_seen (map (derived_key p) xs))))"
proof -
  have "fill_result (grouping p xs) =
      \<lparr>props = props (fill_result (grouping p xs)), proto = proto (fill_result (grouping p xs))\<rparr>"
    by simp
  then show ?thesis
    unfolding props_collision_free [OF ok cf] by (metis own_entries_tabulate)
qed

lemma mset_groups:
  "distinct ks \<Longrightarrow> \<forall>r\<in>set xs. key r \<in> set ks \<Longrightarrow>
   mset (concat (map (\<lambda>k. filter (\<lambda>r. key r = k) xs) ks)) = mset xs"
proof (induction ks arbitrary: xs)
  case Nil
  then show ?case by (cases xs) auto
next
  case (Cons k ks)
  let ?rest = "filter (\<lambda>r. key r \<noteq> k) xs"
  have A: "map (\<lambda>k'. filter (\<lambda>r. key r = k') xs) ks = map (\<lambda>k'. filter (\<lambda>r. key r = k') ?rest) ks"
  proof (rule map_cong [OF refl])
    fix k' assume "k' \<in> set ks"
    with Cons.prems(1) have "k' \<noteq> k" by auto
    then show "filter (\<lambda>r. key r = k') xs = filter (\<lambda>r. key r = k') ?rest"
      by (auto intro: filter_cong)
  qed
  have B: "mset (concat (map (\<lambda>k'. filter (\<lambda>r. key r = k') ?rest) ks)) = mset ?rest"
    using Cons.prems by (intro Cons.IH) auto
  have "mset (concat (map (\<lambda>k'. filter (\<lambda>r. key r = k') xs) (k # ks)))
      = mset (filter (\<lambda>r. key r = k) xs)
        + mset (concat (map (\<lambda>k'. filter (\<lambda>r. key r = k') xs) ks))"
    by simp
  also have "\<dots> = mset (filter (\<lambda>r. key r = k) xs) + mset ?rest"
    by (simp only: A B)
  also have "\<dots> = mset xs"
    using multiset_partition [of "mset xs" "\<lambda>r. key r = k"] by simp
  finally show ?case .
qed

text \<open>
  Away from colliding names the groups of the result hold every input record exactly once.
\<close>

theorem completeness_collision_free:
  assumes run: "groupBy objects property = Inr result"
    and cf: "collision_free (resolve property) objects"
  shows "mset (flatten result) = mset objects"
proof -
  let ?p = "resolve property"
  let ?ks = "enumeration (array_sort (first_seen (map (derived_key ?p) objects)))"
  from run have ok: "\<forall>r\<in>set objects. \<exists>k. ?p r = Inr k"
    and res: "result = fill_result (grouping ?p objects)"
    by (simp_all add: groupBy_Inr)
  have key: "?p r = Inr k \<longleftrightarrow> derived_key ?p r = k" if "r \<in> set objects" for r k
    using ok that by (auto simp: derived_key_def)
  have "flatten result = concat (map (\<lambda>k. filter (\<lambda>r. ?p r = Inr k) objects) ?ks)"
    by (simp add: flatten_def res own_entries_collision_free [OF ok cf] comp_def)
  also have "\<dots> = concat (map (\<lambda>k. filter (\<lambda>r. derived_key ?p r = k) objects) ?ks)"
    using key by (auto intro!: arg_cong [where f = concat] map_cong filter_cong)
  also have "mset \<dots> = mset objects"
    by (rule mset_groups) (simp_all add: distinct_enumeration distinct_array_sort)
  finally show ?thesis .
qed

text \<open>
  Away from colliding names every record is in the group of its key; and in any case a
  record is in no group but the one named by its key.
\<close>

theorem partition_collision_free:
  assumes run: "groupBy objects property = Inr result"
    and cf: "collision_free (resolve property) objects"
    and r: "r \<in> set objects" and k: "resolve property r = Inr k"
  shows "map_of (own_entries result) (ToString k)
           = Some (Some (filter (\<lambda>r'. resolve property r' = Inr k) objects))
     \<and> r \<in> set (filter (\<lambda>r'. resolve property r' = Inr k) objects)
     \<and> (\<forall>e\<in>set (own_entries result). \<forall>g. snd e = Some g \<longrightarrow> r \<in> set g \<longrightarrow> fst e = ToString k)"
proof -
  let ?p = "resolve property"
  let ?ks = "enumeration (array_sort (first_seen (map (derived_key ?p) objects)))"
  let ?h = "\<lambda>k. (ToString k, Some (filter (\<lambda>r. ?p r = Inr k) objects))"
  from run have ok: "\<forall>r\<in>set objects. \<exists>k. ?p r = Inr k"
    and res: "result = fill_result (grouping ?p objects)"
    by (simp_all add: groupBy_Inr)
  have ent: "own_entries result = map ?h ?ks"
    unfolding res by (rule own_entries_collision_free [OF ok cf])
  have kin: "k \<in> set ?ks"
    using r k by (auto simp: derived_key_def intro!: image_eqI [of _ _ r])
  from cf have "inj_on ToString (set ?ks)"
    by (simp add: collision_free_def Let_def distinct_map)
  then have "map_of (map ?h ?ks) (ToString k) = Some (Some (filter (\<lambda>r. ?p r = Inr k) objects))"
    using kin by (rule map_of_tabulate_inj)
  then have 1: "map_of (own_entries result) (ToString k)
      = Some (Some (filter (\<lambda>r'. ?p r' = Inr k) objects))"
    by (simp add: ent)
  have 2: "fst e = ToString k" if "e \<in> set (own_entries result)" "snd e = Some g" "r \<in> set g" for e g
  proof -
    from that(1) obtain k' where "e = ?h k'" unfolding ent by auto
    with that(2,3) have "?p r = Inr k'" "fst e = ToString k'" by auto
    with k show ?thesis by simp
  qed
  from 1 2 r k show ?thesis by auto
qed


lemma filter_groups:
  "distinct ks \<Longrightarrow> k \<in> set ks \<Longrightarrow>
   filter (\<lambda>r. p r = Inr k) (concat (map (\<lambda>k'. filter (\<lambda>r. p r = Inr k') xs) ks))
     = filter (\<lambda>r. p r = Inr k) xs"
proof (induction ks)
  case Nil
  then show ?case by simp
next
  case (Cons a ks)
  have other: "filter (\<lambda>r. p r = Inr k) (filter (\<lambda>r. p r = Inr k') xs) = []" if "k' \<noteq> k" for k'
    using that by (auto simp: filter_empty_conv)
  show ?case
  proof (cases "a = k")
    case True
    with Cons.prems have "k \<notin> set ks" by simp
    then have "filter (\<lambda>r. p r = Inr k) (concat (map (\<lambda>k'. filter (\<lambda>r. p r = Inr k') xs) ks)) = []"
      by (induction ks) (auto simp: other)
    with True show ?thesis by simp
  next
    case False
    with Cons show ?thesis by (simp add: other)
  qed
qed

lemma array_sort_unique:
  assumes "distinct ks" "distinct ks'" "set ks = set ks'" "inj_on ToString (set ks)"
  shows "array_sort ks = array_sort ks'"
proof -
  let ?d = "\<lambda>k. k \<noteq> Undefined"
  have "sort_key ToString (filter ?d ks) = sort_key ToString (filter ?d ks')"
  proof (rule map_sorted_distinct_set_unique [where f = ToString])
    show "inj_on ToString (set (sort_key ToString (filter ?d ks))
        \<union> set (sort_key ToString (filter ?d ks')))"
      using assms(3,4) by (auto intro: inj_on_subset)
    show "distinct (map ToString (sort_key ToString (filter ?d ks)))"
      using assms(1,4) by (auto simp: distinct_map intro: inj_on_subset)
    show "distinct (map ToString (sort_key ToString (filter ?d ks')))"
      using assms(2,3,4) by (auto simp: distinct_map intro: inj_on_subset)
  qed (use assms(3) in simp_all)
  moreover have "filter (\<lambda>k. k = Undefined) ks = filter (\<lambda>k. k = Undefined) ks'"
  proof (cases "Undefined \<in> set ks")
    case True
    with assms show ?thesis by (simp add: filter_eq_distinct)
  next
    case False
    then have "filter (\<lambda>k. k = Undefined) ks = []" by (auto simp: filter_empty_conv)
    moreover from False assms(3) have "filter (\<lambda>k. k = Undefined) ks' = []"
      by (auto simp: filter_empty_conv)
    ultimately show ?thesis by simp
  qed
  ultimately show ?thesis by (simp add: array_sort_def)
qed

lemma fill_result_cong:
  assumes "array_sort (map_keys m) = array_sort (map_keys m')"
    and "\<forall>k\<in>set (map_keys m). map_get m k = map_get m' k"
  shows "fill_result m = fill_result m'"
proof -
  have *: "fold (\<lambda>key result. obj_set result (ToString key) (map_get m key)) ks r
      = fold (\<lambda>key result. obj_set result (ToString key) (map_get m' key)) ks r"
    if "set ks \<subseteq> set (map_keys m)" for ks r
    using that assms(2) by (induction ks arbitrary: r) auto
  have "set (array_sort (map_keys m)) \<subseteq> set (map_keys m)" by simp
  from * [OF this]
  have "fold (\<lambda>key result. obj_set result (ToString key) (map_get m key))
          (array_sort (map_keys m)) empty_object
      = fold (\<lambda>key result. obj_set result (ToString key) (map_get m' key))
          (array_sort (map_keys m)) empty_object" .
  then show ?thesis by (simp only: fill_result_def assms(1) [symmetric])
qed

text \<open>Away from colliding names, grouping the flattened result again returns the result.\<close>

theorem regrouping_collision_free:
  assumes run: "groupBy objects property = Inr result"
    and cf: "collision_free (resolve property) objects"
  shows "groupBy (flatten result) property = Inr result"
proof -
  let ?p = "resolve property"
  let ?ks = "first_seen (map (derived_key ?p) objects)"
  let ?E = "enumeration (array_sort ?ks)"
  let ?G = "\<lambda>k. filter (\<lambda>r. ?p r = Inr k) objects"
  let ?X = "flatten result"
  from run have ok: "\<forall>r\<in>set objects. \<exists>k. ?p r = Inr k"
    and res: "result = fill_result (grouping ?p objects)"
    by (simp_all add: groupBy_Inr)
  have X: "?X = concat (map ?G ?E)"
    by (simp add: flatten_def res own_entries_collision_free [OF ok cf] comp_def)
  have "mset ?X = mset objects" using run cf by (rule completeness_collision_free)
  then have setX: "set ?X = set objects" by (rule mset_eq_setD)
  with ok have ok': "\<forall>r\<in>set ?X. \<exists>k. ?p r = Inr k" by simp
  then have run': "groupBy ?X property = Inr (fill_result (grouping ?p ?X))" by (rule groupBy_ok)
  let ?ks' = "first_seen (map (derived_key ?p) ?X)"
  have sets: "set ?ks' = set ?ks" using setX by simp
  have dE: "distinct ?E" by (simp add: distinct_enumeration distinct_array_sort)
  from cf have inj: "inj_on ToString (set ?ks)"
    by (simp add: collision_free_def Let_def distinct_map)
  have "array_sort ?ks' = array_sort ?ks"
    by (rule array_sort_unique) (use sets inj in simp_all)
  then have 1: "array_sort (map_keys (grouping ?p ?X)) = array_sort (map_keys (grouping ?p objects))"
    by (simp add: map_keys_grouping)
  have 2: "map_get (grouping ?p ?X) k = map_get (grouping ?p objects) k"
    if "k \<in> set (map_keys (grouping ?p ?X))" for k
  proof -
    from that have k': "k \<in> set (map (derived_key ?p) ?X)" by (simp add: map_keys_grouping)
    with sets have k: "k \<in> set (map (derived_key ?p) objects)" by simp
    then have "k \<in> set ?E" by simp
    with dE have "filter (\<lambda>r. ?p r = Inr k) (concat (map ?G ?E)) = ?G k"
      by (rule filter_groups)
    then show ?thesis
      using k k' by (simp add: map_get_grouping X [symmetric])
  qed
  have "fill_result (grouping ?p ?X) = fill_result (grouping ?p objects)"
    using 1 2 by (intro fill_result_cong) auto
  with run' res show ?thesis by simp
qed

section \<open>Writes of \<open>groupBy\<close> on a store\<close>













section \<open>The call on a store and the call on values\<close>

lemma get_field_heap_deref: "get_field_heap h v propName = get_field (deref h v) propName"
  by (auto simp: get_field_heap_def deref_def split: jsval.splits option.splits cell.splits)

lemma resolve_heap_FieldName:
  "resolve_heap (FieldName_heap propName) h v = resolve (FieldName propName) (deref h v)"
  by (simp add: resolve_heap_def resolve_def get_field_heap_deref)

text \<open>Writing a plain cell over a plain cell changes no record, array or map.\<close>

lemma plain_write:
  assumes "plain_cell (cells h a)" "plain_cell (Some c)"
    and "cells h' = (cells h)(a \<mapsto> c)"
  shows "deref h' v = deref h v" "array_elems h' b = array_elems h b"
    "map_entries h' b = map_entries h b"
  using assms
  by (auto simp: deref_def array_elems_def map_entries_def plain_cell_def
      split: jsval.splits option.splits cell.splits)

lemma plain_write_abs:
  assumes "plain_cell (cells h a)" "plain_cell (Some c)"
    and "cells h' = (cells h)(a \<mapsto> c)"
  shows "abs_group h' b = abs_group h b" "abs_map h' m = abs_map h m" "abs_val h' v = abs_val h v"
proof -
  note pw = plain_write [OF assms]
  show g: "abs_group h' b = abs_group h b" for b
    by (simp add: abs_group_def pw cong: map_cong)
  show "abs_map h' m = abs_map h m" by (simp add: abs_map_def g pw)
  show "abs_val h' v = abs_val h v" by (simp add: abs_val_def g split: jsval.splits)
qed

lemma entries_set_absent: "map_of es k = None \<Longrightarrow> entries_set es k a = es @ [(k, a)]"
  by (induction es) (auto split: if_splits)

lemma map_of_map_snd: "map_of (map (\<lambda>e. (fst e, g (snd e))) es) k = map_option g (map_of es k)"
  by (induction es) auto

lemma map_of_abs_map:
  "map_of (abs_map h m) k = map_option (abs_group h) (map_of (map_entries h m) k)"
  by (simp add: abs_map_def map_of_map_snd)

lemma map_set_by_address:
  "distinct (map fst es) \<Longrightarrow> distinct (map snd es) \<Longrightarrow> map_of es k = Some a \<Longrightarrow>
   map (\<lambda>e. (fst e, if snd e = a then v else g (snd e))) es
     = map_set (map (\<lambda>e. (fst e, g (snd e))) es) k v"
proof (induction es)
  case Nil
  then show ?case by simp
next
  case (Cons e es)
  show ?case
  proof (cases "fst e = k")
    case True
    with Cons.prems have a: "snd e = a" by (cases e) auto
    from Cons.prems(2) have "snd e \<notin> snd ` set es" by simp
    with a have "\<forall>e'\<in>set es. snd e' \<noteq> a" by (metis imageI)
    then have "map (\<lambda>e. (fst e, if snd e = a then v else g (snd e))) es
        = map (\<lambda>e. (fst e, g (snd e))) es"
      by (intro map_cong) auto
    with True a show ?thesis by simp
  next
    case False
    with Cons.prems have k: "map_of es k = Some a" by (cases e) auto
    then have "(k, a) \<in> set es" by (rule map_of_SomeD)
    with Cons.prems(2) have "snd e \<noteq> a" by (auto simp: image_iff)
    with False Cons k show ?thesis by simp
  qed
qed

text \<open>Creating the group of a new name.\<close>

lemma ensure_group_sim:
  assumes inv: "map_inv h m" and new: "\<not> heap_map_has h m k"
    and al: "heap_alloc h (CArray []) = (a, h')"
  shows "map_inv (heap_map_set h' m k a) m"
    "deref (heap_map_set h' m k a) v = deref h v"
    "abs_map (heap_map_set h' m k a) m = abs_map h m @ [(k, [])]"
    "map_of (map_entries (heap_map_set h' m k a) m) k = Some a"
proof -
  let ?h1 = "heap_map_set h' m k a"
  let ?es = "map_entries h m"
  from al have a: "a = next_addr h"
    and h': "h' = \<lparr>cells = (cells h)(a \<mapsto> CArray []), next_addr = Suc a\<rparr>"
    by (auto simp: heap_alloc_def)
  from inv a have wf: "\<forall>b\<ge>a. cells h b = None"
    and mcell: "cells h m = Some (CMap ?es)"
    and dk: "distinct (map fst ?es)" and da: "distinct (map snd ?es)"
    and arrs: "\<forall>e\<in>set ?es. \<exists>xs. cells h (snd e) = Some (CArray xs)"
    by (auto simp: map_inv_def map_entries_def)
  from wf have fresh: "cells h a = None" by simp
  with mcell have am: "a \<noteq> m" by auto
  from new have none: "map_of ?es k = None" by (simp add: heap_map_has_def)
  have es': "map_entries h' m = ?es" using am by (simp add: map_entries_def h')
  have "cells ?h1 = (cells h')(m \<mapsto> CMap (?es @ [(k, a)]))"
    by (simp add: heap_map_set_def heap_write_def es' entries_set_absent [OF none])
  then have cells1: "cells ?h1 = (cells h)(a \<mapsto> CArray [], m \<mapsto> CMap (?es @ [(k, a)]))"
    by (simp add: h')
  have next1: "next_addr ?h1 = Suc a" by (simp add: heap_map_set_def heap_write_def h')
  have es1: "map_entries ?h1 m = ?es @ [(k, a)]" by (simp add: map_entries_def cells1)
  have old: "cells ?h1 (snd e) = cells h (snd e)" if "e \<in> set ?es" for e
  proof -
    from arrs that obtain xs where "cells h (snd e) = Some (CArray xs)" by blast
    with fresh mcell have "snd e \<noteq> a" "snd e \<noteq> m" by auto
    then show ?thesis by (simp add: cells1)
  qed
  have anew: "a \<notin> snd ` set ?es"
  proof
    assume "a \<in> snd ` set ?es"
    then obtain e where "e \<in> set ?es" "snd e = a" by auto
    with arrs fresh show False by auto
  qed
  have knew: "k \<notin> fst ` set ?es" using none by (simp add: map_of_eq_None_iff)
  show "map_inv ?h1 m"
    unfolding map_inv_def es1 next1
  proof (intro conjI)
    show "\<forall>b\<ge>Suc a. cells ?h1 b = None" using wf mcell by (auto simp: cells1)
    show "\<exists>es. cells ?h1 m = Some (CMap es)" by (simp add: cells1)
    show "distinct (map fst (?es @ [(k, a)]))" using dk knew by simp
    show "distinct (map snd (?es @ [(k, a)]))" using da anew by simp
    show "\<forall>e\<in>set (?es @ [(k, a)]). \<exists>xs. cells ?h1 (snd e) = Some (CArray xs)"
      using arrs old am by (auto simp: cells1)
  qed
  show "deref ?h1 v = deref h v"
    using fresh mcell by (auto simp: deref_def cells1 split: jsval.splits)
  have "abs_group ?h1 (snd e) = abs_group h (snd e)" if "e \<in> set ?es" for e
    using old [OF that] fresh mcell
    by (auto simp: abs_group_def array_elems_def deref_def cells1
        split: jsval.splits intro!: map_cong)
  moreover have "abs_group ?h1 a = []" using am by (simp add: abs_group_def array_elems_def cells1)
  ultimately show "abs_map ?h1 m = abs_map h m @ [(k, [])]"
    by (simp add: abs_map_def es1)
  show "map_of (map_entries ?h1 m) k = Some a"
    using none by (simp add: es1 map_add_def)
qed


text \<open>Appending to the group of a name.\<close>

lemma push_sim:
  assumes inv: "map_inv h m" and get: "map_of (map_entries h m) k = Some a"
  shows "\<exists>h2. array_push h (heap_map_get h m k) x = (None, h2)
      \<and> map_inv h2 m \<and> (\<forall>v. deref h2 v = deref h v)
      \<and> abs_map h2 m = map_set (abs_map h m) k (abs_group h a @ [deref h x])"
proof -
  let ?es = "map_entries h m"
  from inv have wf: "\<forall>b\<ge>next_addr h. cells h b = None"
    and mcell: "cells h m = Some (CMap ?es)"
    and dk: "distinct (map fst ?es)" and da: "distinct (map snd ?es)"
    and arrs: "\<forall>e\<in>set ?es. \<exists>xs. cells h (snd e) = Some (CArray xs)"
    by (auto simp: map_inv_def map_entries_def)
  from get have "(k, a) \<in> set ?es" by (rule map_of_SomeD)
  with arrs obtain xs where xs: "cells h a = Some (CArray xs)" by fastforce
  with mcell have am: "a \<noteq> m" by auto
  let ?h2 = "heap_write h a (CArray (xs @ [x]))"
  have push: "array_push h (heap_map_get h m k) x = (None, ?h2)"
    by (simp add: array_push_def heap_map_get_def get xs)
  have cells2: "cells ?h2 = (cells h)(a \<mapsto> CArray (xs @ [x]))" by (simp add: heap_write_def)
  have next2: "next_addr ?h2 = next_addr h" by (simp add: heap_write_def)
  have es2: "map_entries ?h2 m = ?es" using am by (simp add: map_entries_def cells2)
  have d: "deref ?h2 v = deref h v" for v
    using xs by (auto simp: deref_def cells2 split: jsval.splits)
  have inv2: "map_inv ?h2 m"
    unfolding map_inv_def es2 next2
  proof (intro conjI)
    show "\<forall>b\<ge>next_addr h. cells ?h2 b = None" using wf xs by (auto simp: cells2)
    show "\<exists>es. cells ?h2 m = Some (CMap es)" using am mcell by (simp add: cells2)
    show "\<forall>e\<in>set ?es. \<exists>xs. cells ?h2 (snd e) = Some (CArray xs)"
      using arrs by (auto simp: cells2)
  qed (use dk da in simp_all)
  have g: "abs_group ?h2 b = (if b = a then abs_group h a @ [deref h x] else abs_group h b)" for b
    using xs by (auto simp: abs_group_def array_elems_def cells2 d)
  have "abs_map ?h2 m =
      map (\<lambda>e. (fst e, if snd e = a then abs_group h a @ [deref h x] else abs_group h (snd e))) ?es"
    by (simp add: abs_map_def es2 g)
  also have "\<dots> = map_set (abs_map h m) k (abs_group h a @ [deref h x])"
    unfolding abs_map_def using dk da get by (rule map_set_by_address)
  finally show ?thesis using push inv2 d by blast
qed

lemma heap_map_has_abs: "heap_map_has h m k = map_has (abs_map h m) k"
  by (simp add: heap_map_has_def map_has_def map_of_abs_map)

text \<open>One iteration of the first loop, on the store and on values.\<close>

lemma group_step_sim:
  assumes inv: "map_inv h m"
  shows "\<exists>h2. array_push
           (if \<not> heap_map_has h m k
            then (case heap_alloc h (CArray []) of (a, h') \<Rightarrow> heap_map_set h' m k a)
            else h)
           (heap_map_get
              (if \<not> heap_map_has h m k
               then (case heap_alloc h (CArray []) of (a, h') \<Rightarrow> heap_map_set h' m k a)
               else h) m k) x = (None, h2)
      \<and> map_inv h2 m \<and> (\<forall>v. deref h2 v = deref h v)
      \<and> group_step (abs_map h m) k (deref h x) = Inr (abs_map h2 m)"
proof (cases "heap_map_has h m k")
  case True
  then obtain a where get: "map_of (map_entries h m) k = Some a"
    by (auto simp: heap_map_has_def)
  from push_sim [OF inv get, of x] obtain h2
    where h2: "array_push h (heap_map_get h m k) x = (None, h2)" "map_inv h2 m"
      "\<forall>v. deref h2 v = deref h v"
      "abs_map h2 m = map_set (abs_map h m) k (abs_group h a @ [deref h x])"
    by blast
  have "group_step (abs_map h m) k (deref h x) = Inr (abs_map h2 m)"
    using True get h2(4)
    by (simp add: group_step_def heap_map_has_abs [symmetric] map_get_def map_of_abs_map)
  with True h2 show ?thesis by auto
next
  case False
  obtain a h' where al: "heap_alloc h (CArray []) = (a, h')" by (cases "heap_alloc h (CArray [])")
  let ?h1 = "heap_map_set h' m k a"
  note e = ensure_group_sim [OF inv False al]
  from push_sim [OF e(1) e(4), of x] obtain h2
    where h2: "array_push ?h1 (heap_map_get ?h1 m k) x = (None, h2)" "map_inv h2 m"
      "\<forall>v. deref h2 v = deref ?h1 v"
      "abs_map h2 m = map_set (abs_map ?h1 m) k (abs_group ?h1 a @ [deref ?h1 x])"
    by blast
  have none: "map_of (abs_map h m) k = None"
    using False by (simp add: heap_map_has_def map_of_abs_map)
  have "map_of (abs_map ?h1 m) k = Some (abs_group ?h1 a)"
    by (simp add: map_of_abs_map e(4))
  with none have ga: "abs_group ?h1 a = []"
    by (simp add: e(3) map_add_def)
  have "group_step (abs_map h m) k (deref h x)
      = Inr (map_set (abs_map h m @ [(k, [])]) k [deref h x])"
    using none by (simp add: group_step_def map_has_def map_get_def map_set_absent map_add_def)
  also have "\<dots> = Inr (abs_map h2 m)"
    by (simp add: h2(4) e(2,3) ga)
  finally have "group_step (abs_map h m) k (deref h x) = Inr (abs_map h2 m)" .
  with False al h2 e(2) show ?thesis by auto
qed

lemma group_loop_sim:
  assumes rel: "\<forall>h v. ph h v = pp (deref h v)"
    and inv: "map_inv h m"
    and run: "group_loop_heap ph m elems h = (out, h')"
  shows "(case out of
            None \<Rightarrow> group_loop pp (map (deref h) elems) (abs_map h m) = Inr (abs_map h' m)
                     \<and> map_inv h' m \<and> (\<forall>v. deref h' v = deref h v)
          | Some e \<Rightarrow> group_loop pp (map (deref h) elems) (abs_map h m) = Inl e)"
  using inv run
proof (induction elems arbitrary: h)
  case Nil
  then show ?case by auto
next
  case (Cons x xs)
  show ?case
  proof (cases "pp (deref h x)")
    case (Inl e)
    with rel have "ph h x = Inl e" by simp
    with Cons.prems(2) Inl show ?thesis by auto
  next
    case (Inr k)
    from group_step_sim [OF Cons.prems(1), of k x] obtain h2
      where push: "array_push
           (if \<not> heap_map_has h m k
            then (case heap_alloc h (CArray []) of (a, h') \<Rightarrow> heap_map_set h' m k a)
            else h)
           (heap_map_get
              (if \<not> heap_map_has h m k
               then (case heap_alloc h (CArray []) of (a, h') \<Rightarrow> heap_map_set h' m k a)
               else h) m k) x = (None, h2)"
        and inv2: "map_inv h2 m" and d2: "\<forall>v. deref h2 v = deref h v"
        and step: "group_step (abs_map h m) k (deref h x) = Inr (abs_map h2 m)"
      by blast
    from rel Inr have phx: "ph h x = Inr k" by simp
    from Cons.prems(2) phx push have run2: "group_loop_heap ph m xs h2 = (out, h')"
      by (simp add: Let_def)
    from d2 have same: "map (deref h2) xs = map (deref h) xs" by simp
    from Cons.IH [OF inv2 run2] show ?thesis
      using Inr step d2 by (auto simp: same split: option.splits)
  qed
qed


text \<open>The second loop, on the store and on values.\<close>

lemma props_put_map:
  "map (\<lambda>e. (fst e, g (snd e))) (props_put ps name v)
     = prop_put (map (\<lambda>e. (fst e, g (snd e))) ps) name (g v)"
  by (induction ps) auto

lemma abs_val_heap_map_get: "abs_val h (heap_map_get h m k) = map_get (abs_map h m) k"
  by (simp add: abs_val_def heap_map_get_def map_get_def map_of_abs_map split: option.splits)

lemma abs_object_write:
  assumes "plain_cell (cells h r)"
  shows "abs_object (heap_write h r (CObject ps pr)) r
     = \<lparr>props = map (\<lambda>e. (fst e, abs_val h (snd e))) ps, proto = map_option (abs_group h) pr\<rparr>"
    and "abs_map (heap_write h r (CObject ps pr)) m = abs_map h m"
proof -
  let ?h' = "heap_write h r (CObject ps pr)"
  have w: "cells ?h' = (cells h)(r \<mapsto> CObject ps pr)" by (simp add: heap_write_def)
  have p: "plain_cell (Some (CObject ps pr))" by (simp add: plain_cell_def)
  note same = plain_write_abs [OF assms p w]
  have c: "cells ?h' r = Some (CObject ps pr)" by (simp add: w)
  have g: "abs_group ?h' = abs_group h" by (rule ext) (rule same)
  have v: "abs_val ?h' = abs_val h" by (rule ext) (rule same)
  show "abs_object ?h' r
     = \<lparr>props = map (\<lambda>e. (fst e, abs_val h (snd e))) ps, proto = map_option (abs_group h) pr\<rparr>"
    by (simp only: abs_object_def c g v option.case cell.case)
  show "abs_map ?h' m = abs_map h m" by (rule same)
qed

lemma obj_set_sim:
  assumes r: "cells h r = Some (CObject ps pr)"
  shows "abs_object (obj_set_heap h r name v) r = obj_set (abs_object h r) name (abs_val h v)"
    and "\<exists>ps' pr'. cells (obj_set_heap h r name v) r = Some (CObject ps' pr')"
    and "abs_map (obj_set_heap h r name v) m = abs_map h m"
proof -
  let ?h' = "obj_set_heap h r name v"
  have pl: "plain_cell (cells h r)" by (simp add: r plain_cell_def)
  note w = abs_object_write [OF pl]
  have cur: "abs_object h r
      = \<lparr>props = map (\<lambda>e. (fst e, abs_val h (snd e))) ps, proto = map_option (abs_group h) pr\<rparr>"
    by (simp add: abs_object_def r)
  show "abs_object ?h' r = obj_set (abs_object h r) name (abs_val h v)"
  proof (cases "name = ''__proto__''")
    case True
    show ?thesis
    proof (cases v)
      case (VRef a)
      with True r have "?h' = heap_write h r (CObject ps (Some a))"
        by (simp add: obj_set_heap_def)
      then show ?thesis
        using True VRef by (simp add: w cur obj_set_def abs_val_def)
    qed (use True r in \<open>simp_all add: obj_set_heap_def obj_set_def abs_val_def\<close>)
  next
    case False
    with r have "?h' = heap_write h r (CObject (props_put ps name v) pr)"
      by (simp add: obj_set_heap_def)
    then show ?thesis
      using False by (simp add: w cur obj_set_def props_put_map)
  qed
  show "\<exists>ps' pr'. cells ?h' r = Some (CObject ps' pr')"
    using r by (auto simp: obj_set_heap_def heap_write_def split: jsval.splits)
  show "abs_map ?h' m = abs_map h m"
    using r w(2) by (auto simp: obj_set_heap_def split: jsval.splits)
qed

lemma fill_result_sim:
  assumes "cells h r = Some (CObject ps pr)"
  shows "abs_object (fill_result_heap m r ks h) r
     = fold (\<lambda>key result. obj_set result (ToString key) (map_get (abs_map h m) key)) ks
         (abs_object h r)"
  using assms
proof (induction ks arbitrary: h ps pr)
  case Nil
  then show ?case by (simp add: fill_result_heap_def)
next
  case (Cons k ks)
  let ?h' = "obj_set_heap h r (ToString k) (heap_map_get h m k)"
  note s = obj_set_sim [OF Cons.prems]
  from s(2) obtain ps' pr' where c: "cells ?h' r = Some (CObject ps' pr')" by blast
  have "fill_result_heap m r (k # ks) h = fill_result_heap m r ks ?h'"
    by (simp add: fill_result_heap_def)
  with Cons.IH [OF c] show ?case
    by (simp add: s(1,3) abs_val_heap_map_get)
qed


lemma map_keys_abs_map: "map_keys (abs_map h m) = map fst (map_entries h m)"
  by (simp add: map_keys_def abs_map_def comp_def)

text \<open>
  On a store with nothing allocated beyond its next free address, and for key functions
  that agree on the records, the call on the store ends as the call on the values of the
  input array does: with the same error, or with a result object that reads as the
  result on values.
\<close>

theorem groupBy_heap_refines:
  assumes wf: "\<forall>a\<ge>next_addr h. cells h a = None"
    and arr: "cells h objects = Some (CArray elems)"
    and rel: "\<forall>h v. resolve_heap ph h v = resolve pp (deref h v)"
  shows "case groupBy_heap h objects ph of
           (Inl e, h') \<Rightarrow> groupBy (map (deref h) elems) pp = Inl e
         | (Inr r, h') \<Rightarrow> groupBy (map (deref h) elems) pp = Inr (abs_object h' r)"
proof -
  let ?m = "next_addr h"
  let ?h1 = "\<lparr>cells = (cells h)(?m \<mapsto> CMap []), next_addr = Suc ?m\<rparr>"
  let ?xs = "map (deref h) elems"
  have al1: "heap_alloc h (CMap []) = (?m, ?h1)" by (simp add: heap_alloc_def)
  from wf have fresh: "cells h ?m = None" by simp
  with arr have "objects \<noteq> ?m" by auto
  with arr have arr1: "cells ?h1 objects = Some (CArray elems)" by simp
  have inv1: "map_inv ?h1 ?m" using wf by (simp add: map_inv_def map_entries_def)
  have d1: "deref ?h1 v = deref h v" for v
    using fresh by (auto simp: deref_def split: jsval.splits)
  have m1: "abs_map ?h1 ?m = []" by (simp add: abs_map_def map_entries_def)
  obtain out h2 where loop: "group_loop_heap (resolve_heap ph) ?m elems ?h1 = (out, h2)"
    by (cases "group_loop_heap (resolve_heap ph) ?m elems ?h1")
  note sim = group_loop_sim [OF rel inv1 loop, unfolded m1]
  have xs1: "map (deref ?h1) elems = ?xs" using d1 by simp
  show ?thesis
  proof (cases out)
    case (Some e)
    with sim have "group_loop (resolve pp) ?xs [] = Inl e" by (simp add: xs1)
    moreover from Some al1 arr1 loop have "groupBy_heap h objects ph = (Inl e, h2)"
      by (simp add: groupBy_heap_def)
    ultimately show ?thesis by (simp add: groupBy_def)
  next
    case None
    with sim have pure: "group_loop (resolve pp) ?xs [] = Inr (abs_map h2 ?m)"
      and inv2: "map_inv h2 ?m"
      by (simp_all add: xs1)
    let ?r = "next_addr h2"
    let ?h3 = "\<lparr>cells = (cells h2)(?r \<mapsto> CObject [] None), next_addr = Suc ?r\<rparr>"
    let ?ks = "map fst (map_entries h2 ?m)"
    let ?h4 = "\<lparr>cells = (cells ?h3)(Suc ?r \<mapsto> CKeys ?ks), next_addr = Suc (Suc ?r)\<rparr>"
    let ?h5 = "heap_write ?h4 (Suc ?r) (CKeys (array_sort ?ks))"
    from inv2 have wf2: "\<forall>a\<ge>?r. cells h2 a = None" by (simp add: map_inv_def)
    have p2: "plain_cell (cells h2 ?r)" using wf2 by (simp add: plain_cell_def)
    have p3: "plain_cell (cells ?h3 (Suc ?r))" using wf2 by (simp add: plain_cell_def)
    have p4: "plain_cell (cells ?h4 (Suc ?r))" by (simp add: plain_cell_def)
    have e3: "map_entries ?h3 ?m = map_entries h2 ?m"
      by (rule plain_write(3) [OF p2, of "CObject [] None"]) (simp_all add: plain_cell_def)
    have a3: "abs_map ?h3 ?m = abs_map h2 ?m"
      by (rule plain_write_abs(2) [OF p2, of "CObject [] None"]) (simp_all add: plain_cell_def)
    have a4: "abs_map ?h4 ?m = abs_map ?h3 ?m"
      by (rule plain_write_abs(2) [OF p3, of "CKeys ?ks"]) (simp_all add: plain_cell_def)
    have a5: "abs_map ?h5 ?m = abs_map ?h4 ?m"
      by (rule plain_write_abs(2) [OF p4, of "CKeys (array_sort ?ks)"])
        (simp_all add: plain_cell_def heap_write_def)
    have al3: "heap_alloc h2 (CObject [] None) = (?r, ?h3)" by (simp add: heap_alloc_def)
    have al4: "heap_alloc ?h3 (CKeys (map fst (map_entries ?h3 ?m))) = (Suc ?r, ?h4)"
      by (simp add: heap_alloc_def e3)
    have s5: "keys_sort ?h4 (Suc ?r) = ?h5" by (simp add: keys_sort_def keys_elems_def)
    have k5: "keys_elems ?h5 (Suc ?r) = array_sort ?ks"
      by (simp add: keys_elems_def heap_write_def)
    have r5: "cells ?h5 ?r = Some (CObject [] None)" by (simp add: heap_write_def)
    have o5: "abs_object ?h5 ?r = empty_object"
      by (simp only: abs_object_def r5 option.case cell.case) (simp add: empty_object_def)
    let ?h6 = "fill_result_heap ?m ?r (array_sort ?ks) ?h5"
    have run: "groupBy_heap h objects ph = (Inr ?r, ?h6)"
      by (simp only: groupBy_heap_def al1 arr1 loop None al3 al4 s5 k5 Let_def
          prod.case option.case cell.case)
    have "abs_object ?h6 ?r = fill_result (abs_map h2 ?m)"
      unfolding fill_result_sim [OF r5] o5 a5 a4 a3
      by (simp add: fill_result_def map_keys_abs_map)
    with pure run show ?thesis by (simp add: groupBy_def)
  qed
qed

section \<open>Properties of \<open>groupBy\<close>\<close>

text \<open>
  C1. Completeness does not hold on the code. The groups are collected in a \<open>Map\<close>, whose
  keys are values, and then assigned to a plain object, whose keys are strings: of the
  groups of the number 2 and of the string "2" the second assignment overwrites the
  first, and the record of the number 2 is in no group of the result. With string keys
  alone, the group named \<open>__proto__\<close> becomes the prototype of the result and is not one
  of its groups. (On inputs without such names the property holds:
  \<open>completeness_collision_free\<close>.)
\<close>

theorem completeness_failure:
  "groupBy [RObj [(''k'', Num 2)], RObj [(''k'', Str ''2'')]] (FieldName ''k'') =
     Inr \<lparr>props = [(''2'', Some [RObj [(''k'', Str ''2'')]])], proto = None\<rparr>
   \<and> flatten \<lparr>props = [(''2'', Some [RObj [(''k'', Str ''2'')]])], proto = None\<rparr>
       = [RObj [(''k'', Str ''2'')]]
   \<and> length (flatten \<lparr>props = [(''2'', Some [RObj [(''k'', Str ''2'')]])], proto = None\<rparr>)
       \<noteq> length [RObj [(''k'', Num 2)], RObj [(''k'', Str ''2'')]]
   \<and> groupBy [RObj [(''team'', Str ''__proto__'')], RObj [(''team'', Str ''red'')]]
       (FieldName ''team'') =
     Inr \<lparr>props = [(''red'', Some [RObj [(''team'', Str ''red'')]])],
          proto = Some [RObj [(''team'', Str ''__proto__'')]]\<rparr>
   \<and> flatten \<lparr>props = [(''red'', Some [RObj [(''team'', Str ''red'')]])],
          proto = Some [RObj [(''team'', Str ''__proto__'')]]\<rparr> = [RObj [(''team'', Str ''red'')]]"
  by (simp add: groupBy_eval)

text \<open>
  C2, as stated, fails: with the number keys \<open>-1\<close> and \<open>-5\<close> the result enumerates
  \<open>-1\<close> before \<open>-5\<close>, which is not numeric order; with the string keys "10" and "9" it
  enumerates "9" before "10", which is not the order of strings.
\<close>

theorem sort_order_counterexample:
  "groupBy [RObj [(''k'', Num (- 1))], RObj [(''k'', Num (- 5))]] (FieldName ''k'') =
     Inr \<lparr>props = [(''-1'', Some [RObj [(''k'', Num (- 1))]]),
                   (''-5'', Some [RObj [(''k'', Num (- 5))]])], proto = None\<rparr>
   \<and> own_keys \<lparr>props = [(''-1'', Some [RObj [(''k'', Num (- 1))]]),
                   (''-5'', Some [RObj [(''k'', Num (- 5))]])], proto = None\<rparr>
       = [ToString (Num (- 1)), ToString (Num (- 5))]
   \<and> \<not> ((- 1 :: int) \<le> - 5)
   \<and> groupBy [RObj [(''k'', Str ''10'')], RObj [(''k'', Str ''9'')]] (FieldName ''k'') =
     Inr \<lparr>props = [(''10'', Some [RObj [(''k'', Str ''10'')]]),
                   (''9'', Some [RObj [(''k'', Str ''9'')]])], proto = None\<rparr>
   \<and> own_keys \<lparr>props = [(''10'', Some [RObj [(''k'', Str ''10'')]]),
                   (''9'', Some [RObj [(''k'', Str ''9'')]])], proto = None\<rparr>
       = [''9'', ''10'']
   \<and> \<not> (''9'' \<le> ''10'')"
  by (simp add: groupBy_eval)

text \<open>
  C2, amended. The keys of the result are pairwise distinct and enumerate in two parts:
  first the array indices, in ascending numeric order, then the other names. The other
  names, the name \<open>undefined\<close> set aside, are in ascending order of their strings (code unit
  by code unit); when no record has the group name \<open>undefined\<close>, all the other names are.
\<close>

theorem sort_order:
  assumes "groupBy objects property = Inr result"
  shows "own_keys result = index_keys result @ string_keys result
     \<and> distinct (own_keys result)
     \<and> (\<forall>s\<in>set (index_keys result). array_index s \<noteq> None)
     \<and> sorted (map nat_of_string (index_keys result))
     \<and> (\<forall>s\<in>set (string_keys result). array_index s = None)
     \<and> sorted (filter (\<lambda>s. s \<noteq> ''undefined'') (string_keys result))
     \<and> ((\<forall>r\<in>set objects. resolve property r \<noteq> Inr Undefined) \<longrightarrow> sorted (string_keys result))"
proof -
  let ?p = "resolve property"
  from assms have ok: "\<forall>r\<in>set objects. \<exists>k. ?p r = Inr k"
    and res: "result = fill_result (grouping ?p objects)"
    by (simp_all add: groupBy_Inr)
  have 1: "distinct (own_keys result)" unfolding res by (rule distinct_own_keys_fill)
  have "sorted (filter (\<lambda>s. array_index s = None)
      (filter (\<lambda>s. s \<noteq> ''undefined'') (map fst (props result))))"
    unfolding res by (intro sorted_wrt_filter sorted_names_without_undefined)
  then have 2: "sorted (filter (\<lambda>s. s \<noteq> ''undefined'') (string_keys result))"
    by (simp add: string_keys_filter conj_commute)
  have 3: "sorted (string_keys result)" if "\<forall>r\<in>set objects. ?p r \<noteq> Inr Undefined"
  proof -
    from that have "Undefined \<notin> set (map_keys (grouping ?p objects))"
      by (simp add: map_keys_grouping derived_key_mem [OF ok] del: set_map)
    then have "sorted (map fst (props result))"
      unfolding res by (rule sorted_names_no_undefined)
    then show ?thesis unfolding string_keys_filter by (rule sorted_wrt_filter)
  qed
  show ?thesis
    using 1 2 3 by (simp add: own_keys_split sorted_index_keys index_keys_are_indices
        string_keys_not_indices)
qed

theorem sort_order_witness:
  "own_keys \<lparr>props = [(''10'', Some [RObj [(''k'', Num 10)]]), (''2'', Some [RObj [(''k'', Num 2)]]),
                      (''a'', Some [RObj [(''k'', Str ''a'')]]), (''b'', Some [RObj [(''k'', Str ''b'')]])],
            proto = None\<rparr> = [''2'', ''10'', ''a'', ''b'']
   \<and> sorted (string_keys \<lparr>props = [(''10'', Some [RObj [(''k'', Num 10)]]),
                      (''2'', Some [RObj [(''k'', Num 2)]]),
                      (''a'', Some [RObj [(''k'', Str ''a'')]]), (''b'', Some [RObj [(''k'', Str ''b'')]])],
            proto = None\<rparr>)"
proof -
  let ?objects = "[RObj [(''k'', Str ''b'')], RObj [(''k'', Num 10)], RObj [(''k'', Str ''a'')],
                   RObj [(''k'', Num 2)]]"
  let ?result = "\<lparr>props = [(''10'', Some [RObj [(''k'', Num 10)]]), (''2'', Some [RObj [(''k'', Num 2)]]),
                      (''a'', Some [RObj [(''k'', Str ''a'')]]), (''b'', Some [RObj [(''k'', Str ''b'')]])],
            proto = None\<rparr>"
  have run: "groupBy ?objects (FieldName ''k'') = Inr ?result"
    by (simp add: groupBy_eval)
  have no_undefined: "\<forall>r\<in>set ?objects. resolve (FieldName ''k'') r \<noteq> Inr Undefined"
    by (simp add: resolve_def)
  have keys: "own_keys ?result = [''2'', ''10'', ''a'', ''b'']"
    by (simp add: groupBy_eval)
  from sort_order [OF run] no_undefined have "sorted (string_keys ?result)" by blast
  with keys show ?thesis by simp
qed

text \<open>
  C3. Two group names with the same string are not merged: the result has one group under
  that string, holding the records of the name assigned last, and the records of the
  other name are lost.
\<close>

theorem merged_group_failure:
  "groupBy [RObj [(''word'', Str ''a''), (''n'', Num 2)], RObj [(''word'', Str ''b''), (''n'', Str ''2'')]]
     (FieldName ''n'') =
     Inr \<lparr>props = [(''2'', Some [RObj [(''word'', Str ''b''), (''n'', Str ''2'')]])], proto = None\<rparr>
   \<and> ToString (Num 2) = ToString (Str ''2'')
   \<and> own_entries \<lparr>props = [(''2'', Some [RObj [(''word'', Str ''b''), (''n'', Str ''2'')]])],
                    proto = None\<rparr>
       = [(''2'', Some [RObj [(''word'', Str ''b''), (''n'', Str ''2'')]])]
   \<and> RObj [(''word'', Str ''a''), (''n'', Num 2)]
       \<notin> set (flatten \<lparr>props = [(''2'', Some [RObj [(''word'', Str ''b''), (''n'', Str ''2'')]])],
                        proto = None\<rparr>)"
  by (simp add: groupBy_eval)

text \<open>
  C4. Stability: every group of the result is the sequence of the input records with one
  group name, in their input order; in particular it is a subsequence of the input.
\<close>

theorem stability:
  assumes "groupBy objects property = Inr result"
    and "(name, v) \<in> set (own_entries result)"
  shows "\<exists>k group. ToString k = name \<and> v = Some group
           \<and> group = filter (\<lambda>r. resolve property r = Inr k) objects
           \<and> subseq group objects"
proof -
  from assms(1) have "result = fill_result (grouping (resolve property) objects)"
    by (simp add: groupBy_Inr)
  with assms(2) obtain k where "ToString k = name"
      "v = Some (filter (\<lambda>r. resolve property r = Inr k) objects)"
    by (blast dest: entry_of_fill_result)
  then show ?thesis by fastforce
qed

theorem stability_witness:
  "\<exists>k group. ToString k = ''blue''
     \<and> Some [RObj [(''name'', Str ''Steve''), (''team'', Str ''blue'')],
              RObj [(''name'', Str ''Carol''), (''team'', Str ''blue'')]] = Some group
     \<and> group = filter (\<lambda>r. resolve (FieldName ''team'') r = Inr k)
          [RObj [(''name'', Str ''Steve''), (''team'', Str ''blue'')],
           RObj [(''name'', Str ''Jack''), (''team'', Str ''red'')],
           RObj [(''name'', Str ''Carol''), (''team'', Str ''blue'')]]
     \<and> subseq group
          [RObj [(''name'', Str ''Steve''), (''team'', Str ''blue'')],
           RObj [(''name'', Str ''Jack''), (''team'', Str ''red'')],
           RObj [(''name'', Str ''Carol''), (''team'', Str ''blue'')]]"
proof -
  let ?steve = "RObj [(''name'', Str ''Steve''), (''team'', Str ''blue'')]"
  let ?jack = "RObj [(''name'', Str ''Jack''), (''team'', Str ''red'')]"
  let ?carol = "RObj [(''name'', Str ''Carol''), (''team'', Str ''blue'')]"
  let ?result = "\<lparr>props = [(''blue'', Some [?steve, ?carol]), (''red'', Some [?jack])],
                   proto = None\<rparr>"
  have run: "groupBy [?steve, ?jack, ?carol] (FieldName ''team'') = Inr ?result"
    by (simp add: groupBy_eval)
  have entry: "(''blue'', Some [?steve, ?carol]) \<in> set (own_entries ?result)"
    by (simp add: groupBy_eval)
  from stability [OF run entry] show ?thesis .
qed

text \<open>
  C5. A record is missing from the group of its key when another group name has the same
  string (here \<open>null\<close> and "null": the group \<open>null\<close> of the result holds the other record
  only), and when the string is \<open>__proto__\<close>, which creates no property at all. (On
  inputs without such names the property holds: \<open>partition_collision_free\<close>.)
\<close>

theorem partition_failure:
  "groupBy [RObj [(''team'', Null), (''name'', Str ''Steve'')],
            RObj [(''team'', Str ''null''), (''name'', Str ''Jack'')]] (FieldName ''team'') =
     Inr \<lparr>props = [(''null'', Some [RObj [(''team'', Str ''null''), (''name'', Str ''Jack'')]])],
          proto = None\<rparr>
   \<and> resolve (FieldName ''team'') (RObj [(''team'', Null), (''name'', Str ''Steve'')]) = Inr Null
   \<and> map_of (own_entries \<lparr>props = [(''null'', Some [RObj [(''team'', Str ''null''),
                                       (''name'', Str ''Jack'')]])], proto = None\<rparr>) (ToString Null)
       = Some (Some [RObj [(''team'', Str ''null''), (''name'', Str ''Jack'')]])
   \<and> groupBy [RObj [(''team'', Str ''__proto__'')]] (FieldName ''team'') =
     Inr \<lparr>props = [], proto = Some [RObj [(''team'', Str ''__proto__'')]]\<rparr>
   \<and> own_entries \<lparr>props = [], proto = Some [RObj [(''team'', Str ''__proto__'')]]\<rparr> = []"
  by (simp add: groupBy_eval)

text \<open>
  C6. Error propagation: when the key derivation raises on some record, \<open>groupBy\<close> ends
  with the error of the first record on which it raises, and returns no result.
\<close>

theorem error_propagation:
  assumes "\<exists>r\<in>set objects. \<exists>e. resolve property r = Inl e"
  shows "\<exists>pre r post e. objects = pre @ r # post
           \<and> (\<forall>x\<in>set pre. \<exists>k. resolve property x = Inr k)
           \<and> resolve property r = Inl e
           \<and> groupBy objects property = Inl e"
proof -
  from split_list_first_prop [OF assms]
  obtain pre r post where split: "objects = pre @ r # post"
    and bad: "\<exists>e. resolve property r = Inl e"
    and pre: "\<forall>x\<in>set pre. \<not> (\<exists>e. resolve property x = Inl e)"
    by blast
  from bad obtain e where e: "resolve property r = Inl e" ..
  have ok: "\<forall>x\<in>set pre. \<exists>k. resolve property x = Inr k"
  proof
    fix x assume "x \<in> set pre"
    with pre show "\<exists>k. resolve property x = Inr k"
      by (cases "resolve property x") auto
  qed
  then have "groupBy objects property = Inl e"
    using e by (simp add: split groupBy_def group_loop_error)
  with split ok e show ?thesis by blast
qed

theorem error_propagation_witness:
  "\<exists>pre r post e.
     [RObj [(''team'', Str ''blue'')], RNull, RObj [(''team'', Str ''red'')]] = pre @ r # post
     \<and> (\<forall>x\<in>set pre. \<exists>k. resolve (FieldName ''team'') x = Inr k)
     \<and> resolve (FieldName ''team'') r = Inl e
     \<and> groupBy [RObj [(''team'', Str ''blue'')], RNull, RObj [(''team'', Str ''red'')]]
          (FieldName ''team'') = Inl e
     \<and> groupBy [RObj [(''team'', Str ''blue'')], RNull, RObj [(''team'', Str ''red'')]]
          (FieldName ''team'') = Inl TypeError"
proof -
  let ?objects = "[RObj [(''team'', Str ''blue'')], RNull, RObj [(''team'', Str ''red'')]]"
  have bad: "\<exists>r\<in>set ?objects. \<exists>e. resolve (FieldName ''team'') r = Inl e"
    by (simp add: resolve_def)
  have run: "groupBy ?objects (FieldName ''team'') = Inl TypeError"
    by (simp add: groupBy_eval)
  from error_propagation [OF bad] run show ?thesis by metis
qed




text \<open>
  C8. Grouping the flattened result again changes the order of the keys when the groups of
  \<open>undefined\<close> and of the string "undefined" collide: the surviving group sits at the place
  of the string key, and moves to the end when regrouped. (On inputs without colliding
  names the property holds: \<open>regrouping_collision_free\<close>.)
\<close>

theorem regrouping_failure:
  "groupBy [RObj [(''k'', Str ''undefined'')], RObj [(''k'', Str ''zebra'')], RObj []] (FieldName ''k'') =
     Inr \<lparr>props = [(''undefined'', Some [RObj []]), (''zebra'', Some [RObj [(''k'', Str ''zebra'')]])],
          proto = None\<rparr>
   \<and> flatten \<lparr>props = [(''undefined'', Some [RObj []]),
                       (''zebra'', Some [RObj [(''k'', Str ''zebra'')]])], proto = None\<rparr>
       = [RObj [], RObj [(''k'', Str ''zebra'')]]
   \<and> groupBy [RObj [], RObj [(''k'', Str ''zebra'')]] (FieldName ''k'') =
     Inr \<lparr>props = [(''zebra'', Some [RObj [(''k'', Str ''zebra'')]]), (''undefined'', Some [RObj []])],
          proto = None\<rparr>
   \<and> own_keys \<lparr>props = [(''undefined'', Some [RObj []]),
                       (''zebra'', Some [RObj [(''k'', Str ''zebra'')]])], proto = None\<rparr>
       = [''undefined'', ''zebra'']
   \<and> own_keys \<lparr>props = [(''zebra'', Some [RObj [(''k'', Str ''zebra'')]]),
                       (''undefined'', Some [RObj []])], proto = None\<rparr>
       = [''zebra'', ''undefined'']"
  by (simp add: groupBy_eval)



text \<open>
  C10, as stated, fails: the non-negative integer keys 5000000000 and 10000000000 are not
  array indices, and the result enumerates 10000000000 first.
\<close>

theorem index_keys_counterexample:
  "groupBy [RObj [(''numSyllables'', Num 5000000000)], RObj [(''numSyllables'', Num 10000000000)]]
     (FieldName ''numSyllables'') =
     Inr \<lparr>props = [(''10000000000'', Some [RObj [(''numSyllables'', Num 10000000000)]]),
                   (''5000000000'', Some [RObj [(''numSyllables'', Num 5000000000)]])],
          proto = None\<rparr>
   \<and> own_keys \<lparr>props = [(''10000000000'', Some [RObj [(''numSyllables'', Num 10000000000)]]),
                   (''5000000000'', Some [RObj [(''numSyllables'', Num 5000000000)]])],
          proto = None\<rparr> = [ToString (Num 10000000000), ToString (Num 5000000000)]
   \<and> \<not> ((10000000000 :: int) \<le> 5000000000)"
  by (simp add: groupBy_eval)

text \<open>
  C10, amended. When every group name is a non-negative integer below \<open>2^32 - 1\<close>, that
  is an array index, \<open>groupBy\<close> returns a result whose keys enumerate as the decimal
  strings of the distinct group names in ascending numeric order.
\<close>

theorem index_keys_ascending:
  assumes kn: "\<forall>r\<in>set objects. resolve property r = Inr (Num (int (kn r))) \<and> kn r < 4294967295"
  shows "\<exists>result. groupBy objects property = Inr result
      \<and> own_keys result = map string_of_nat (sort (remdups (map kn objects)))"
proof -
  let ?p = "resolve property"
  let ?m = "grouping ?p objects"
  let ?res = "fill_result ?m"
  let ?ys = "map string_of_nat (sort (remdups (map kn objects)))"
  have ok: "\<forall>r\<in>set objects. \<exists>k. ?p r = Inr k" using kn by auto
  then have run: "groupBy objects property = Inr ?res" by (rule groupBy_ok)
  have keys: "set (map_keys ?m) = (\<lambda>r. Num (int (kn r))) ` set objects"
    using kn by (auto simp: map_keys_grouping derived_key_def intro!: image_eqI)
  have np: "\<forall>k\<in>set (map_keys ?m). ToString k \<noteq> ''__proto__''"
  proof
    fix k assume "k \<in> set (map_keys ?m)"
    then obtain r where "r \<in> set objects" "k = Num (int (kn r))" using keys by auto
    then have "array_index (ToString k) = Some (kn r)"
      using kn by (simp add: string_of_int_nat array_index_string_of_nat)
    then show "ToString k \<noteq> ''__proto__''" by (auto simp: array_index_proto)
  qed
  have names: "set (map fst (props ?res)) = string_of_nat ` kn ` set objects"
  proof -
    have "set (map fst (props ?res)) = ToString ` set (map_keys ?m)"
      using np by (auto simp: keys_fill_result)
    also have "\<dots> = string_of_nat ` kn ` set objects"
      by (simp add: keys image_image string_of_int_nat)
    finally show ?thesis .
  qed
  have idx: "array_index s \<noteq> None" if "s \<in> set (map fst (props ?res))" for s
  proof -
    from that names obtain r where "r \<in> set objects" "s = string_of_nat (kn r)" by auto
    then show ?thesis using kn by (simp add: array_index_string_of_nat)
  qed
  have nostr: "string_keys ?res = []"
    using idx by (auto simp: string_keys_filter filter_empty_conv)
  have set_own: "set (own_keys ?res) = string_of_nat ` kn ` set objects"
    using names by (simp add: own_keys_def)
  have inj: "inj_on nat_of_string (set (own_keys ?res) \<union> set ?ys)"
    unfolding set_own by (rule inj_onI) (auto simp: nat_of_string_string_of_nat)
  have sx: "sorted (map nat_of_string (own_keys ?res))"
    by (simp add: own_keys_split nostr sorted_index_keys)
  have dx: "distinct (map nat_of_string (own_keys ?res))"
    using inj by (auto simp: distinct_map distinct_own_keys_fill intro: inj_on_subset)
  have my: "map nat_of_string ?ys = sort (remdups (map kn objects))"
    by (simp add: comp_def nat_of_string_string_of_nat)
  have "own_keys ?res = ?ys"
    using inj sx dx
  proof (rule map_sorted_distinct_set_unique)
    show "sorted (map nat_of_string ?ys)" unfolding my by simp
    show "distinct (map nat_of_string ?ys)" unfolding my by simp
    show "set (own_keys ?res) = set ?ys" by (simp add: set_own image_image)
  qed
  with run show ?thesis by simp
qed

theorem index_keys_ascending_witness:
  "\<exists>result. groupBy [RObj [(''numSyllables'', Num 10)], RObj [(''numSyllables'', Num 2)],
                     RObj [(''numSyllables'', Num 10), (''word'', Str ''a'')]]
                (FieldName ''numSyllables'') = Inr result
      \<and> own_keys result = [''2'', ''10'']"
proof -
  let ?objects = "[RObj [(''numSyllables'', Num 10)], RObj [(''numSyllables'', Num 2)],
                   RObj [(''numSyllables'', Num 10), (''word'', Str ''a'')]]"
  let ?kn = "\<lambda>r. case get_field r ''numSyllables'' of Inr (Num n) \<Rightarrow> nat n | _ \<Rightarrow> 0"
  have kn: "\<forall>r\<in>set ?objects. resolve (FieldName ''numSyllables'') r = Inr (Num (int (?kn r)))
      \<and> ?kn r < 4294967295"
    by (simp add: resolve_def)
  have keys: "map string_of_nat (sort (remdups (map ?kn ?objects))) = [''2'', ''10'']"
    by (simp add: string_of_nat.simps digit_char_def)
  from index_keys_ascending [OF kn] show ?thesis
    unfolding keys .
qed

end
